theory Spec2Isabelle
  imports Main "HOL-Library.Word" "HOL-Library.Sublist"
begin

section \<open>Strings\<close>

text \<open>
  A JavaScript string is a sequence of 16-bit UTF-16 code units, and a regular expression
  without the \<^verbatim>\<open>u\<close> flag matches code unit by code unit.  \<open>js\<close> embeds an
  ASCII literal.
\<close>

type_synonym unit16 = "16 word"
type_synonym jsstring = "unit16 list"

definition js :: "string \<Rightarrow> jsstring" where
  "js s = map of_char s"

abbreviation LF :: unit16 where "LF \<equiv> 0x0A"
abbreviation CR :: unit16 where "CR \<equiv> 0x0D"
abbreviation LSEP :: unit16 where "LSEP \<equiv> 0x2028"
abbreviation PSEP :: unit16 where "PSEP \<equiv> 0x2029"
abbreviation BANG :: unit16 where "BANG \<equiv> 0x21"
abbreviation HASH :: unit16 where "HASH \<equiv> 0x23"
abbreviation DASH :: unit16 where "DASH \<equiv> 0x2D"
abbreviation COLON :: unit16 where "COLON \<equiv> 0x3A"
abbreviation SEMI :: unit16 where "SEMI \<equiv> 0x3B"
abbreviation BSL :: unit16 where "BSL \<equiv> 0x5C"
abbreviation BAR :: unit16 where "BAR \<equiv> 0x7C"

text \<open>The ECMAScript \<open>LineTerminator\<close> code units: the ones \<^verbatim>\<open>.\<close> refuses and
  \<^verbatim>\<open>^\<close>, \<^verbatim>\<open>$\<close> look at under the \<^verbatim>\<open>m\<close> flag.\<close>

definition lineTerminator :: "unit16 \<Rightarrow> bool" where
  "lineTerminator c \<longleftrightarrow> c = LF \<or> c = CR \<or> c = LSEP \<or> c = PSEP"

section \<open>The regular expressions of \<^verbatim>\<open>formatTable\<close> and their matcher\<close>

text \<open>
  The pattern constructs that occur in the four regular expressions of
  \<^verbatim>\<open>formatTable\<close> (main.ts, lines 127 to 135):
  a literal code unit, \<^verbatim>\<open>.\<close>, a negated one-element class \<^verbatim>\<open>[^c]\<close>,
  sequence, alternation, greedy \<^verbatim>\<open>*\<close>, lazy \<^verbatim>\<open>*?\<close>, greedy \<^verbatim>\<open>?\<close>,
  a capture group, \<^verbatim>\<open>^\<close> and \<^verbatim>\<open>$\<close> under the \<^verbatim>\<open>m\<close> flag, the
  one-unit negative lookbehind \<^verbatim>\<open>(?<!c)\<close>, and the lookahead \<^verbatim>\<open>(?=r)\<close>.
\<close>

datatype re =
    Eps
  | Chr unit16
  | Dot
  | NotChr unit16
  | Seq re re
  | Alt re re
  | Star re
  | LazyStar re
  | Opt re
  | Group nat re
  | Bol
  | Eol
  | NotBehind unit16
  | Ahead re

text \<open>
  A matcher state is a position in the input together with the captures so far: \<open>prev\<close>
  is the code unit just before the position (\<open>None\<close> at index 0), which is all that
  \<^verbatim>\<open>^\<close> and \<^verbatim>\<open>(?<!c)\<close> read backwards; \<open>rest\<close> is the input from the
  position on; \<open>caps n\<close> is capture \<open>n\<close>, \<open>None\<close> for \<^verbatim>\<open>undefined\<close>.
\<close>

record mstate =
  prev :: "unit16 option"
  rest :: jsstring
  caps :: "nat \<Rightarrow> jsstring option"

definition step :: "mstate \<Rightarrow> mstate" where
  "step x = (case rest x of [] \<Rightarrow> x | c # cs \<Rightarrow> x\<lparr>prev := Some c, rest := cs\<rparr>)"

definition consumed :: "mstate \<Rightarrow> mstate \<Rightarrow> jsstring" where
  "consumed x y = take (length (rest x) - length (rest y)) (rest x)"

definition atLineStart :: "mstate \<Rightarrow> bool" where
  "atLineStart x = (case prev x of None \<Rightarrow> True | Some c \<Rightarrow> lineTerminator c)"

definition atLineEnd :: "mstate \<Rightarrow> bool" where
  "atLineEnd x = (case rest x of [] \<Rightarrow> True | c # cs \<Rightarrow> lineTerminator c)"

fun groupsIn :: "re \<Rightarrow> nat list" where
  "groupsIn (Seq r1 r2) = groupsIn r1 @ groupsIn r2"
| "groupsIn (Alt r1 r2) = groupsIn r1 @ groupsIn r2"
| "groupsIn (Star r) = groupsIn r"
| "groupsIn (LazyStar r) = groupsIn r"
| "groupsIn (Opt r) = groupsIn r"
| "groupsIn (Group n r) = n # groupsIn r"
| "groupsIn (Ahead r) = groupsIn r"
| "groupsIn _ = []"

text \<open>A quantifier resets the captures of its body at the start of every iteration.\<close>

definition clearCaps :: "re \<Rightarrow> mstate \<Rightarrow> mstate" where
  "clearCaps r x = x\<lparr>caps := (\<lambda>n. if n \<in> set (groupsIn r) then None else caps x n)\<rparr>"

text \<open>
  The backtracking matcher, in the continuation-passing form of the ECMAScript
  specification: \<open>rmatch r x k\<close> matches \<open>r\<close> at state \<open>x\<close> and hands every end
  state, in the order of priority, to the continuation \<open>k\<close> until \<open>k\<close> succeeds;
  \<open>None\<close> is failure.  An iteration of a quantifier that consumes nothing is rejected
  (the empty check of \<open>RepeatMatcher\<close>); the matcher only moves forward, so the check
  reads as a strictly shorter rest.
\<close>

function rmatch :: "re \<Rightarrow> mstate \<Rightarrow> (mstate \<Rightarrow> mstate option) \<Rightarrow> mstate option" where
  "rmatch Eps x k = k x"
| "rmatch (Chr c) x k =
     (case rest x of [] \<Rightarrow> None | d # ds \<Rightarrow> if d = c then k (step x) else None)"
| "rmatch Dot x k =
     (case rest x of [] \<Rightarrow> None | d # ds \<Rightarrow> if lineTerminator d then None else k (step x))"
| "rmatch (NotChr c) x k =
     (case rest x of [] \<Rightarrow> None | d # ds \<Rightarrow> if d = c then None else k (step x))"
| "rmatch (Seq r1 r2) x k = rmatch r1 x (\<lambda>y. rmatch r2 y k)"
| "rmatch (Alt r1 r2) x k =
     (case rmatch r1 x k of Some z \<Rightarrow> Some z | None \<Rightarrow> rmatch r2 x k)"
| "rmatch (Star r) x k =
     (case rmatch r (clearCaps r x)
             (\<lambda>y. if length (rest y) < length (rest x) then rmatch (Star r) y k else None) of
        Some z \<Rightarrow> Some z
      | None \<Rightarrow> k x)"
| "rmatch (LazyStar r) x k =
     (case k x of
        Some z \<Rightarrow> Some z
      | None \<Rightarrow>
          rmatch r (clearCaps r x)
            (\<lambda>y. if length (rest y) < length (rest x) then rmatch (LazyStar r) y k else None))"
| "rmatch (Opt r) x k =
     (case rmatch r (clearCaps r x)
             (\<lambda>y. if length (rest y) < length (rest x) then k y else None) of
        Some z \<Rightarrow> Some z
      | None \<Rightarrow> k x)"
| "rmatch (Group n r) x k =
     rmatch r x (\<lambda>y. k (y\<lparr>caps := (caps y)(n \<mapsto> consumed x y)\<rparr>))"
| "rmatch Bol x k = (if atLineStart x then k x else None)"
| "rmatch Eol x k = (if atLineEnd x then k x else None)"
| "rmatch (NotBehind c) x k = (if prev x = Some c then None else k x)"
| "rmatch (Ahead r) x k =
     (case rmatch r x Some of None \<Rightarrow> None | Some y \<Rightarrow> k (x\<lparr>caps := caps y\<rparr>))"
  by pat_completeness auto
termination
  by (relation "inv_image (measure size <*lex*> measure length) (\<lambda>(r, x, k). (r, rest x))")
    auto

text \<open>The matcher never moves backwards; the loops below terminate by this.\<close>

lemma rmatch_rest_le:
  "rmatch r x k = Some z \<Longrightarrow> \<exists>y. k y = Some z \<and> length (rest y) \<le> length (rest x)"
proof (induction r x k arbitrary: z rule: rmatch.induct)
  case (1 x k)
  then show ?case by auto
next
  case (2 c x k)
  then show ?case by (auto simp: step_def split: list.splits if_splits)
next
  case (3 x k)
  then show ?case by (auto simp: step_def split: list.splits if_splits)
next
  case (4 c x k)
  then show ?case by (auto simp: step_def split: list.splits if_splits)
next
  case (5 r1 r2 x k)
  from 5(2)[of z] 5(3) obtain y
    where "rmatch r2 y k = Some z" "length (rest y) \<le> length (rest x)" by auto
  with 5(1)[of y z] show ?case by fastforce
next
  case (6 r1 r2 x k)
  then show ?case by (auto split: option.splits)
next
  case (7 r x k)
  show ?case
  proof (cases "rmatch r (clearCaps r x)
      (\<lambda>y. if length (rest y) < length (rest x) then rmatch (Star r) y k else None)")
    case None
    with 7(3) show ?thesis by auto
  next
    case (Some w)
    with 7(3) have w: "w = z" by simp
    from 7(2)[of z] Some w obtain y
      where y: "length (rest y) < length (rest x)" "rmatch (Star r) y k = Some z"
      by (auto split: if_splits)
    from 7(1)[OF y(1) y(2)] y(1) show ?thesis by fastforce
  qed
next
  case (8 r x k)
  show ?case
  proof (cases "k x")
    case (Some w)
    with 8(3) show ?thesis by auto
  next
    case None
    with 8(3) have "rmatch r (clearCaps r x)
      (\<lambda>y. if length (rest y) < length (rest x) then rmatch (LazyStar r) y k else None) = Some z"
      by simp
    from 8(2)[OF None this] obtain y
      where y: "length (rest y) < length (rest x)" "rmatch (LazyStar r) y k = Some z"
      by (auto split: if_splits)
    from 8(1)[OF None y(1) y(2)] y(1) show ?thesis by fastforce
  qed
next
  case (9 r x k)
  show ?case
  proof (cases "rmatch r (clearCaps r x)
      (\<lambda>y. if length (rest y) < length (rest x) then k y else None)")
    case None
    with 9(2) show ?thesis by auto
  next
    case (Some w)
    with 9(2) have "w = z" by simp
    with 9(1)[of z] Some show ?thesis by (fastforce split: if_splits)
  qed
next
  case (10 n r x k)
  then show ?case by fastforce
next
  case (11 x k)
  then show ?case by (auto split: if_splits)
next
  case (12 x k)
  then show ?case by (auto split: if_splits)
next
  case (13 c x k)
  then show ?case by (auto split: if_splits)
next
  case (14 r x k)
  then show ?case by (auto split: option.splits)
qed

text \<open>
  \<open>RegExpBuiltinExec\<close> for a global, non-sticky expression: starting at
  \<open>lastIndex\<close> (the state \<open>x\<close>), try the matcher with all captures undefined, moving
  one code unit forward after each failure, and fail once the index passes the end of the
  input.  The result is the state where the match starts and the state where it ends.
\<close>

function exec :: "re \<Rightarrow> mstate \<Rightarrow> (mstate \<times> mstate) option" where
  "exec r x =
     (case rmatch r (x\<lparr>caps := \<lambda>_. None\<rparr>) Some of
        Some y \<Rightarrow> Some (x, y)
      | None \<Rightarrow> (case rest x of [] \<Rightarrow> None | c # cs \<Rightarrow> exec r (step x)))"
  by pat_completeness auto
termination
  by (relation "measure (\<lambda>(r, x). length (rest x))") (auto simp: step_def)

declare exec.simps [simp del]

lemma exec_rest_le:
  "exec r x = Some (s, e) \<Longrightarrow>
     length (rest e) \<le> length (rest s) \<and> length (rest s) \<le> length (rest x)"
proof (induction r x rule: exec.induct)
  case (1 r x)
  show ?case
  proof (cases "rmatch r (x\<lparr>caps := \<lambda>_. None\<rparr>) Some")
    case (Some y)
    with 1(2) have "s = x" "e = y" by (simp_all add: exec.simps[of r x])
    with rmatch_rest_le[OF Some] show ?thesis by auto
  next
    case None
    with 1(2) obtain c cs where r: "rest x = c # cs" and "exec r (step x) = Some (s, e)"
      by (auto simp: exec.simps[of r x] split: list.splits)
    with 1(1)[OF None r] show ?thesis by (auto simp: step_def)
  qed
qed

text \<open>
  \<^verbatim>\<open>String.prototype.matchAll\<close> with a global expression, spread into an array:
  \<open>exec\<close> is repeated from the end of the previous match; after an empty match
  \<open>lastIndex\<close> is advanced by one.  The array holds one element per match; the model
  keeps its captures.
\<close>

function matchAllFrom :: "re \<Rightarrow> mstate \<Rightarrow> mstate list" where
  "matchAllFrom r x =
     (case exec r x of
        None \<Rightarrow> []
      | Some (s, e) \<Rightarrow>
          e # (if length (rest e) < length (rest s) then matchAllFrom r e
               else (case rest e of [] \<Rightarrow> [] | c # cs \<Rightarrow> matchAllFrom r (step e))))"
  by pat_completeness auto
termination
proof (relation "measure (\<lambda>(r, x). length (rest x))")
  show "wf (measure (\<lambda>(r, x). length (rest x)))" by simp
next
  fix r x p s e
  assume "exec r x = Some p" "(s, e) = p" "length (rest e) < length (rest s)"
  then show "((r, e), (r, x)) \<in> measure (\<lambda>(r, x). length (rest x))"
    using exec_rest_le[of r x s e] by simp
next
  fix r x p s e c cs
  assume "exec r x = Some p" "(s, e) = p" "\<not> length (rest e) < length (rest s)"
    "rest e = c # cs"
  then show "((r, step e), (r, x)) \<in> measure (\<lambda>(r, x). length (rest x))"
    using exec_rest_le[of r x s e] by (simp add: step_def)
qed

declare matchAllFrom.simps [simp del]

definition matchAll :: "re \<Rightarrow> jsstring \<Rightarrow> (nat \<Rightarrow> jsstring option) list" where
  "matchAll r s = map caps (matchAllFrom r \<lparr>prev = None, rest = s, caps = \<lambda>_. None\<rparr>)"

text \<open>
  \<^verbatim>\<open>String.prototype.split\<close> with a regular expression and no limit
  (\<open>RegExp.prototype[@@split]\<close>): the separator is tried at each index \<open>q\<close>, sticky;
  \<open>seg\<close> is the substring from the end \<open>p\<close> of the last separator to \<open>q\<close>.  A match
  that ends at \<open>p\<close> (an empty match right after the last separator) is skipped.  The
  separator of \<^verbatim>\<open>formatTable\<close> has no capture group, so only the segments are
  pushed.
\<close>

function splitLoop :: "re \<Rightarrow> jsstring \<Rightarrow> mstate \<Rightarrow> jsstring list" where
  "splitLoop r seg x =
     (case rest x of
        [] \<Rightarrow> [seg]
      | c # cs \<Rightarrow>
          (case rmatch r (x\<lparr>caps := \<lambda>_. None\<rparr>) Some of
             None \<Rightarrow> splitLoop r (seg @ [c]) (step x)
           | Some y \<Rightarrow>
               if seg = [] \<and> length (rest y) = length (rest x)
               then splitLoop r (seg @ [c]) (step x)
               else seg # splitLoop r [] y))"
  by pat_completeness auto
termination
proof (relation "measures [\<lambda>(r, seg, x). length (rest x), \<lambda>(r, seg, x). length seg]")
  show "wf (measures [\<lambda>(r, seg, x). length (rest x), \<lambda>(r, seg, x). length seg])" by simp
next
  fix r :: re and seg :: jsstring and x :: mstate and c cs
  assume "rest x = c # cs"
  then show "((r, seg @ [c], step x), (r, seg, x))
      \<in> measures [\<lambda>(r, seg, x). length (rest x), \<lambda>(r, seg, x). length seg]"
    by (simp add: step_def)
next
  fix r :: re and seg :: jsstring and x :: mstate and c cs
  assume "rest x = c # cs"
  then show "((r, seg @ [c], step x), (r, seg, x))
      \<in> measures [\<lambda>(r, seg, x). length (rest x), \<lambda>(r, seg, x). length seg]"
    by (simp add: step_def)
next
  fix r seg x y
  assume "rmatch r (x\<lparr>caps := \<lambda>_. None\<rparr>) Some = Some y"
    "\<not> (seg = [] \<and> length (rest y) = length (rest x))"
  then show "((r, [], y), (r, seg, x))
      \<in> measures [\<lambda>(r, seg, x). length (rest x), \<lambda>(r, seg, x). length seg]"
    using rmatch_rest_le[of r "x\<lparr>caps := \<lambda>_. None\<rparr>" Some y] by auto
qed

declare splitLoop.simps [simp del]

definition jsSplit :: "re \<Rightarrow> jsstring \<Rightarrow> jsstring list" where
  "jsSplit r s =
     (if s = [] then
        (case rmatch r \<lparr>prev = None, rest = [], caps = \<lambda>_. None\<rparr> Some of
           Some y \<Rightarrow> []
         | None \<Rightarrow> [s])
      else splitLoop r [] \<lparr>prev = None, rest = s, caps = \<lambda>_. None\<rparr>)"

text \<open>
  \<^verbatim>\<open>String.prototype.replace\<close> with a string pattern: only the first occurrence is
  replaced.  (The replacement strings of \<^verbatim>\<open>formatTable\<close> contain no \<^verbatim>\<open>$\<close>.)
\<close>

fun replaceFirst :: "jsstring \<Rightarrow> jsstring \<Rightarrow> jsstring \<Rightarrow> jsstring" where
  "replaceFirst pat rep [] = (if pat = [] then rep else [])"
| "replaceFirst pat rep (c # cs) =
     (if take (length pat) (c # cs) = pat then rep @ drop (length pat) (c # cs)
      else c # replaceFirst pat rep cs)"

fun seq :: "re list \<Rightarrow> re" where
  "seq [] = Eps"
| "seq [r] = r"
| "seq (r # rs) = Seq r (seq rs)"

text \<open>\<^verbatim>\<open>/^!(.*?)(?:(?<!\\)\|(.*))?$/gm\<close>\<close>

definition thumbnailRe :: re where
  "thumbnailRe =
     seq [Bol, Chr BANG, Group 1 (LazyStar Dot),
          Opt (seq [NotBehind BSL, Chr BAR, Group 2 (Star Dot)]), Eol]"

text \<open>\<^verbatim>\<open>/^#(.*)\n-((?:[^#]|\n)*)(?=#|$)/gm\<close>\<close>

definition groupRe :: re where
  "groupRe =
     seq [Bol, Chr HASH, Group 1 (Star Dot), Chr LF, Chr DASH,
          Group 2 (Star (Alt (NotChr HASH) (Chr LF))), Ahead (Alt (Chr HASH) Eol)]"

text \<open>\<^verbatim>\<open>/^-(.*?)(?<!\\):(.*)$/gm\<close>\<close>

definition entryRe :: re where
  "entryRe =
     seq [Bol, Chr DASH, Group 1 (LazyStar Dot), NotBehind BSL, Chr COLON,
          Group 2 (Star Dot), Eol]"

text \<open>\<^verbatim>\<open>/(?<!\\);/g\<close>\<close>

definition valueSepRe :: re where
  "valueSepRe = seq [NotBehind BSL, Chr SEMI]"

section \<open>The data model and \<^verbatim>\<open>formatTable\<close>\<close>

record thumbnail =
  url :: jsstring
  description :: "jsstring option"

datatype entryValue = Single jsstring | Many "jsstring list"

record tableEntry =
  key :: jsstring
  entry_value :: entryValue

record group =
  name :: jsstring
  entries :: "tableEntry list"

record asyncTable =
  thumbnails :: "thumbnail list"
  groups :: "group list"

text \<open>
  A capture that did not take part in a match is \<^verbatim>\<open>undefined\<close>.  Calling
  \<^verbatim>\<open>replace\<close>, \<^verbatim>\<open>split\<close> or \<^verbatim>\<open>matchAll\<close> on it raises a TypeError; passing it
  to \<^verbatim>\<open>getImageLink\<close> or storing it as a group name breaks the declared type
  \<^verbatim>\<open>string\<close>.  The model makes all of these the error value.
\<close>

datatype error = TypeError

fun mapE :: "('a \<Rightarrow> error + 'b) \<Rightarrow> 'a list \<Rightarrow> error + 'b list" where
  "mapE f [] = Inr []"
| "mapE f (a # as) =
     (case f a of
        Inl e \<Rightarrow> Inl e
      | Inr b \<Rightarrow> (case mapE f as of Inl e \<Rightarrow> Inl e | Inr bs \<Rightarrow> Inr (b # bs)))"

text \<open>Lines 128 to 129; \<open>getImageLink\<close> is the link resolver of the host application.\<close>

definition mkThumbnail ::
  "(jsstring \<Rightarrow> jsstring) \<Rightarrow> (nat \<Rightarrow> jsstring option) \<Rightarrow> error + thumbnail" where
  "mkThumbnail getImageLink match =
     (case match 1 of
        None \<Rightarrow> Inl TypeError
      | Some u \<Rightarrow> Inr \<lparr>url = getImageLink u, description = match 2\<rparr>)"

text \<open>Lines 134 to 137.\<close>

definition mkEntry :: "(nat \<Rightarrow> jsstring option) \<Rightarrow> error + tableEntry" where
  "mkEntry entryMatch =
     (case entryMatch 1 of
        None \<Rightarrow> Inl TypeError
      | Some k \<Rightarrow>
          (case entryMatch 2 of
             None \<Rightarrow> Inl TypeError
           | Some v \<Rightarrow>
               (let key = replaceFirst [BSL, COLON] [COLON] k;
                    value = map (replaceFirst [BSL, SEMI] [SEMI]) (jsSplit valueSepRe v)
                in Inr \<lparr>key = key,
                        entry_value =
                          (if length value = 1 then Single (value ! 0) else Many value)\<rparr>)))"

text \<open>Lines 133 to 138: the entries of a captured region, \<^verbatim>\<open>groupMatch[2]\<close>.\<close>

definition parseEntries :: "jsstring \<Rightarrow> error + tableEntry list" where
  "parseEntries region = mapE mkEntry (matchAll entryRe region)"

text \<open>Lines 132 to 141, for one match of the group expression.\<close>

definition mkGroup :: "(nat \<Rightarrow> jsstring option) \<Rightarrow> error + group" where
  "mkGroup groupMatch =
     (case groupMatch 2 of
        None \<Rightarrow> Inl TypeError
      | Some region \<Rightarrow>
          (case parseEntries region of
             Inl e \<Rightarrow> Inl e
           | Inr es \<Rightarrow>
               (case groupMatch 1 of
                  None \<Rightarrow> Inl TypeError
                | Some n \<Rightarrow> Inr \<lparr>name = n, entries = es\<rparr>)))"

definition formatTable :: "(jsstring \<Rightarrow> jsstring) \<Rightarrow> jsstring \<Rightarrow> error + asyncTable" where
  "formatTable getImageLink source =
     (case mapE (mkThumbnail getImageLink) (matchAll thumbnailRe source) of
        Inl e \<Rightarrow> Inl e
      | Inr ts \<Rightarrow>
          (case mapE mkGroup (matchAll groupRe source) of
             Inl e \<Rightarrow> Inl e
           | Inr gs \<Rightarrow> Inr \<lparr>thumbnails = ts, groups = gs\<rparr>))"

section \<open>The expressions, line by line\<close>

text \<open>
  The definitions of this section describe what the four expressions compute without
  going through the backtracking matcher.  They are not taken on trust: each one is proved
  below to agree with the matcher on every input, and the properties of
  \<^verbatim>\<open>formatTable\<close> are then read off them.
\<close>

subsection \<open>Lines\<close>

text \<open>
  \<open>bolp p\<close>: a position whose previous code unit is \<open>p\<close> is at the start of a line
  (where \<^verbatim>\<open>^\<close> matches).  \<open>lineOf s\<close> is \<open>s\<close> up to its first line terminator,
  \<open>afterLine s\<close> the rest from that terminator on, and \<open>prevAfter p l\<close> the previous
  code unit once \<open>l\<close> has been consumed.  \<open>jsLines\<close> cuts a string at every line
  terminator: these are the lines the expressions with the \<^verbatim>\<open>m\<close> flag see.
\<close>

definition bolp :: "unit16 option \<Rightarrow> bool" where
  "bolp p = (case p of None \<Rightarrow> True | Some c \<Rightarrow> lineTerminator c)"

definition lineOf :: "jsstring \<Rightarrow> jsstring" where
  "lineOf s = takeWhile (\<lambda>c. \<not> lineTerminator c) s"

definition afterLine :: "jsstring \<Rightarrow> jsstring" where
  "afterLine s = dropWhile (\<lambda>c. \<not> lineTerminator c) s"

definition prevAfter :: "unit16 option \<Rightarrow> jsstring \<Rightarrow> unit16 option" where
  "prevAfter p l = (if l = [] then p else Some (last l))"

fun jsLines :: "jsstring \<Rightarrow> jsstring list" where
  "jsLines [] = [[]]"
| "jsLines (c # s) =
     (if lineTerminator c then [] # jsLines s
      else (case jsLines s of [] \<Rightarrow> [[c]] | l # ls \<Rightarrow> (c # l) # ls))"

definition startsWith :: "unit16 \<Rightarrow> jsstring \<Rightarrow> bool" where
  "startsWith c l = (case l of [] \<Rightarrow> False | a # _ \<Rightarrow> a = c)"

subsection \<open>Escape-aware scanning\<close>

text \<open>
  An occurrence of a delimiter is escaped when the code unit just before it is a
  backslash.  \<open>unescapedAt d l i\<close>: index \<open>i\<close> of \<open>l\<close> holds an unescaped \<open>d\<close>.
  \<open>splitUnescaped d q s\<close> cuts \<open>s\<close> at its first unescaped \<open>d\<close> (\<open>q\<close> is the code
  unit before \<open>s\<close>); \<open>splitOnUnescaped d q s\<close> cuts \<open>s\<close> at every unescaped \<open>d\<close>.
\<close>

definition unescapedAt :: "unit16 \<Rightarrow> jsstring \<Rightarrow> nat \<Rightarrow> bool" where
  "unescapedAt d l i \<longleftrightarrow> i < length l \<and> l ! i = d \<and> (i = 0 \<or> l ! (i - 1) \<noteq> BSL)"

fun splitUnescaped :: "unit16 \<Rightarrow> unit16 option \<Rightarrow> jsstring \<Rightarrow> (jsstring \<times> jsstring) option" where
  "splitUnescaped d q [] = None"
| "splitUnescaped d q (a # s) =
     (if a = d \<and> q \<noteq> Some BSL then Some ([], s)
      else (case splitUnescaped d (Some a) s of
              None \<Rightarrow> None
            | Some (k, v) \<Rightarrow> Some (a # k, v)))"

fun splitOnUnescaped :: "unit16 \<Rightarrow> unit16 option \<Rightarrow> jsstring \<Rightarrow> jsstring list" where
  "splitOnUnescaped d q [] = [[]]"
| "splitOnUnescaped d q (a # s) =
     (if a = d \<and> q \<noteq> Some BSL then [] # splitOnUnescaped d (Some a) s
      else (case splitOnUnescaped d (Some a) s of
              [] \<Rightarrow> [[a]]
            | seg # segs \<Rightarrow> (a # seg) # segs))"

subsection \<open>One thumbnail line, one entry line, one group\<close>

text \<open>
  \<open>entryLine l\<close> is the pair of captures of the entry expression on the line \<open>l\<close>, if
  it matches; \<open>entryOf k v\<close> is the entry that lines 134 to 137 build from them.
  \<open>thumbLine\<close> and \<open>thumbOf\<close> are the same for the thumbnail expression, and
  \<open>thumbnailOfLine\<close> puts the two together for a line that starts with \<^verbatim>\<open>!\<close>.
  \<open>groupHead s\<close> is the header text and the text after the \<^verbatim>\<open>-\<close> when \<open>s\<close>
  starts with a header line that is directly followed by a newline and \<^verbatim>\<open>-\<close>;
  \<open>regionOf\<close> is that text up to the next \<^verbatim>\<open>#\<close>, and \<open>groupOf\<close> the group built
  from a header text and a region.  \<open>sepTail\<close> and \<open>thumbTail\<close> are the parts of the
  entry and thumbnail expressions after their first capture.
\<close>

definition sepTail :: "unit16 \<Rightarrow> mstate \<Rightarrow> mstate option" where
  "sepTail d x =
     (case rest x of
        [] \<Rightarrow> None
      | a # s \<Rightarrow>
          if a = d \<and> prev x \<noteq> Some BSL
          then Some \<lparr>prev = prevAfter (Some d) (lineOf s), rest = afterLine s,
                     caps = (caps x)(2 \<mapsto> lineOf s)\<rparr>
          else None)"

definition thumbTail :: "mstate \<Rightarrow> mstate option" where
  "thumbTail x =
     (case sepTail BAR (x\<lparr>caps := (caps x)(2 := None)\<rparr>) of
        Some z \<Rightarrow> Some z
      | None \<Rightarrow> if atLineEnd x then Some x else None)"

definition entryLine :: "jsstring \<Rightarrow> (jsstring \<times> jsstring) option" where
  "entryLine l =
     (case l of [] \<Rightarrow> None
      | a # l' \<Rightarrow> if a = DASH then splitUnescaped COLON (Some DASH) l' else None)"

definition entryCaps :: "jsstring \<Rightarrow> (nat \<Rightarrow> jsstring option) option" where
  "entryCaps l = (case entryLine l of None \<Rightarrow> None | Some (k, v) \<Rightarrow> Some [1 \<mapsto> k, 2 \<mapsto> v])"

definition entryOf :: "jsstring \<Rightarrow> jsstring \<Rightarrow> tableEntry" where
  "entryOf k v =
     \<lparr>key = replaceFirst [BSL, COLON] [COLON] k,
      entry_value =
        (let value = map (replaceFirst [BSL, SEMI] [SEMI]) (splitOnUnescaped SEMI None v)
         in if length value = 1 then Single (value ! 0) else Many value)\<rparr>"

definition thumbLine :: "jsstring \<Rightarrow> (jsstring \<times> jsstring option) option" where
  "thumbLine l =
     (case l of [] \<Rightarrow> None
      | a # l' \<Rightarrow>
          if a = BANG
          then Some (case splitUnescaped BAR (Some BANG) l' of
                       None \<Rightarrow> (l', None)
                     | Some (u, d) \<Rightarrow> (u, Some d))
          else None)"

definition thumbCaps :: "jsstring \<times> jsstring option \<Rightarrow> (nat \<Rightarrow> jsstring option)" where
  "thumbCaps ud = (case ud of (u, None) \<Rightarrow> [1 \<mapsto> u] | (u, Some d) \<Rightarrow> [1 \<mapsto> u, 2 \<mapsto> d])"

definition thumbCapsOf :: "jsstring \<Rightarrow> (nat \<Rightarrow> jsstring option) option" where
  "thumbCapsOf l = map_option thumbCaps (thumbLine l)"

definition thumbOf :: "(jsstring \<Rightarrow> jsstring) \<Rightarrow> jsstring \<times> jsstring option \<Rightarrow> thumbnail" where
  "thumbOf getImageLink ud = \<lparr>url = getImageLink (fst ud), description = snd ud\<rparr>"


definition regionOf :: "jsstring \<Rightarrow> jsstring" where
  "regionOf s = takeWhile (\<lambda>c. c \<noteq> HASH) s"

definition afterRegion :: "jsstring \<Rightarrow> jsstring" where
  "afterRegion s = dropWhile (\<lambda>c. c \<noteq> HASH) s"

definition groupHead :: "jsstring \<Rightarrow> (jsstring \<times> jsstring) option" where
  "groupHead s =
     (case s of
        [] \<Rightarrow> None
      | a # s1 \<Rightarrow>
          if a = HASH then
            (case afterLine s1 of
               t # d # s2 \<Rightarrow> if t = LF \<and> d = DASH then Some (lineOf s1, s2) else None
             | _ \<Rightarrow> None)
          else None)"

definition groupOf :: "jsstring \<Rightarrow> jsstring \<Rightarrow> group" where
  "groupOf n region =
     \<lparr>name = n, entries = map (\<lambda>(k, v). entryOf k v) (List.map_filter entryLine (jsLines region))\<rparr>"

text \<open>
  \<open>groupMatches p s\<close>: the captures of all matches of the group expression from a position
  with previous code unit \<open>p\<close> and rest \<open>s\<close> on; \<^verbatim>\<open>matchAll\<close> on a source is
  \<open>groupMatches None\<close>.
\<close>

definition groupMatches :: "unit16 option \<Rightarrow> jsstring \<Rightarrow> (nat \<Rightarrow> jsstring option) list" where
  "groupMatches p s = map caps (matchAllFrom groupRe \<lparr>prev = p, rest = s, caps = \<lambda>_. None\<rparr>)"

section \<open>The matcher on the expressions of \<^verbatim>\<open>formatTable\<close>\<close>

subsection \<open>Lines and greedy \<^verbatim>\<open>.*\<close>\<close>

declare rmatch.simps [simp del]

lemma lineOf_simps [simp]:
  "lineOf [] = []"
  "lineOf (a # s) = (if lineTerminator a then [] else a # lineOf s)"
  by (simp_all add: lineOf_def)

lemma afterLine_simps [simp]:
  "afterLine [] = []"
  "afterLine (a # s) = (if lineTerminator a then a # s else afterLine s)"
  by (simp_all add: afterLine_def)

lemma lineOf_afterLine: "lineOf s @ afterLine s = s"
  by (simp add: lineOf_def afterLine_def)

lemma afterLine_cases: "afterLine s = [] \<or> (\<exists>t s'. afterLine s = t # s' \<and> lineTerminator t)"
  by (induction s) auto

lemma lineOf_noLT: "c \<in> set (lineOf s) \<Longrightarrow> \<not> lineTerminator c"
  unfolding lineOf_def by (auto dest: set_takeWhileD)

lemma length_afterLine: "length (afterLine s) = length s - length (lineOf s)"
  by (induction s) auto

lemma take_lineOf: "take (length s - length (afterLine s)) s = lineOf s"
  by (induction s) (auto simp: length_afterLine Suc_diff_le)

lemma prevAfter_simps [simp]:
  "prevAfter p [] = p"
  "prevAfter p (a # l) = prevAfter (Some a) l"
  by (simp_all add: prevAfter_def)

lemma clearCaps_nogroups [simp]:
  "groupsIn r = [] \<Longrightarrow> clearCaps r x = x"
  by (simp add: clearCaps_def)

lemma step_Cons [simp]:
  "step \<lparr>prev = p, rest = a # s, caps = c\<rparr> = \<lparr>prev = Some a, rest = s, caps = c\<rparr>"
  by (simp add: step_def)

lemma star_dot_greedy:
  assumes k: "\<And>q a s' c'. \<not> lineTerminator a \<Longrightarrow> k \<lparr>prev = q, rest = a # s', caps = c'\<rparr> = None"
  shows "rmatch (Star Dot) \<lparr>prev = p, rest = s, caps = c\<rparr> k =
           k \<lparr>prev = prevAfter p (lineOf s), rest = afterLine s, caps = c\<rparr>"
proof (induction s arbitrary: p)
  case Nil
  show ?case by (simp add: rmatch.simps)
next
  case (Cons a s)
  show ?case
  proof (cases "lineTerminator a")
    case True
    then show ?thesis by (simp add: rmatch.simps)
  next
    case False
    with Cons[of "Some a"] k[OF False, of p s c] show ?thesis
      by (simp add: rmatch.simps split: option.splits)
  qed
qed

lemma group_star_dot:
  assumes k: "\<And>q a s' c'. \<not> lineTerminator a \<Longrightarrow> k \<lparr>prev = q, rest = a # s', caps = c'\<rparr> = None"
  shows "rmatch (Group n (Star Dot)) \<lparr>prev = p, rest = s, caps = c\<rparr> k =
           k \<lparr>prev = prevAfter p (lineOf s), rest = afterLine s, caps = c(n \<mapsto> lineOf s)\<rparr>"
proof -
  let ?x = "\<lparr>prev = p, rest = s, caps = c\<rparr>"
  have "rmatch (Group n (Star Dot)) ?x k =
        rmatch (Star Dot) ?x (\<lambda>y. k (y\<lparr>caps := (caps y)(n \<mapsto> consumed ?x y)\<rparr>))"
    by (simp add: rmatch.simps)
  also have "\<dots> = k (\<lparr>prev = prevAfter p (lineOf s), rest = afterLine s, caps = c\<rparr>
        \<lparr>caps := c(n \<mapsto> consumed ?x \<lparr>prev = prevAfter p (lineOf s), rest = afterLine s, caps = c\<rparr>)\<rparr>)"
    by (subst star_dot_greedy) (simp_all add: k)
  finally show ?thesis by (simp add: consumed_def take_lineOf)
qed

lemma atLineEnd_afterLine [simp]: "atLineEnd \<lparr>prev = q, rest = afterLine s, caps = c\<rparr>"
  using afterLine_cases[of s] by (auto simp: atLineEnd_def)

lemma atLineEnd_Cons [simp]:
  "atLineEnd \<lparr>prev = q, rest = a # s, caps = c\<rparr> = lineTerminator a"
  by (simp add: atLineEnd_def)

lemma atLineEnd_Nil [simp]: "atLineEnd \<lparr>prev = q, rest = [], caps = c\<rparr>"
  by (simp add: atLineEnd_def)

lemma lt_simps [simp]:
  "lineTerminator LF" "\<not> lineTerminator HASH" "\<not> lineTerminator DASH" "\<not> lineTerminator COLON"
  "\<not> lineTerminator BAR" "\<not> lineTerminator BANG" "\<not> lineTerminator SEMI" "\<not> lineTerminator BSL"
  by (simp_all add: lineTerminator_def)

subsection \<open>The entry expression on one line\<close>

lemma sep_tail_eq:
  "rmatch (NotBehind BSL) x
     (\<lambda>y. rmatch (Chr d) y (\<lambda>y. rmatch (Group 2 (Star Dot)) y (\<lambda>y. rmatch Eol y Some))) =
   sepTail d x"
proof (cases x)
  case (fields p s c)
  have g: "\<And>q s' c'. rmatch (Group 2 (Star Dot)) \<lparr>prev = q, rest = s', caps = c'\<rparr> (\<lambda>y. rmatch Eol y Some) =
       Some \<lparr>prev = prevAfter q (lineOf s'), rest = afterLine s', caps = c'(2 \<mapsto> lineOf s')\<rparr>"
    by (subst group_star_dot) (simp_all add: rmatch.simps)
  show ?thesis
    unfolding fields sepTail_def
    by (cases s) (simp_all add: rmatch.simps(2,13) g)
qed

lemma lazy_dot_unfold:
  "rmatch (LazyStar Dot) \<lparr>prev = q, rest = s, caps = c\<rparr> k =
     (case k \<lparr>prev = q, rest = s, caps = c\<rparr> of
        Some z \<Rightarrow> Some z
      | None \<Rightarrow>
          (case s of
             [] \<Rightarrow> None
           | a # s' \<Rightarrow>
               if lineTerminator a then None
               else rmatch (LazyStar Dot) \<lparr>prev = Some a, rest = s', caps = c\<rparr> k))"
  by (cases s) (simp_all add: rmatch.simps(3,8) split: option.splits)

lemma consumed_append [simp]:
  "consumed \<lparr>prev = p0, rest = u @ s, caps = c0\<rparr> \<lparr>prev = q, rest = s, caps = c\<rparr> = u"
  by (simp add: consumed_def)

lemma sepTail_simps:
  "sepTail d \<lparr>prev = q, rest = [], caps = c\<rparr> = None"
  "sepTail d \<lparr>prev = q, rest = a # s, caps = c\<rparr> =
     (if a = d \<and> q \<noteq> Some BSL
      then Some \<lparr>prev = prevAfter (Some d) (lineOf s), rest = afterLine s, caps = c(2 \<mapsto> lineOf s)\<rparr>
      else None)"
  by (simp_all add: sepTail_def)

lemma entry_lazy:
  "rmatch (LazyStar Dot) \<lparr>prev = q, rest = s, caps = c\<rparr>
     (\<lambda>y. sepTail COLON (y\<lparr>caps := (caps y)(1 \<mapsto> consumed \<lparr>prev = p0, rest = u @ s, caps = c0\<rparr> y)\<rparr>)) =
   (case splitUnescaped COLON q (lineOf s) of
      None \<Rightarrow> None
    | Some (k, v) \<Rightarrow>
        Some \<lparr>prev = prevAfter q (lineOf s), rest = afterLine s, caps = c(1 \<mapsto> u @ k, 2 \<mapsto> v)\<rparr>)"
proof (induction s arbitrary: q u)
  case Nil
  show ?case by (subst lazy_dot_unfold) (simp add: sepTail_simps)
next
  case (Cons a s)
  have ih: "rmatch (LazyStar Dot) \<lparr>prev = Some a, rest = s, caps = c\<rparr>
     (\<lambda>y. sepTail COLON (y\<lparr>caps := (caps y)(1 \<mapsto> consumed \<lparr>prev = p0, rest = u @ a # s, caps = c0\<rparr> y)\<rparr>)) =
   (case splitUnescaped COLON (Some a) (lineOf s) of
      None \<Rightarrow> None
    | Some (k, v) \<Rightarrow>
        Some \<lparr>prev = prevAfter (Some a) (lineOf s), rest = afterLine s, caps = c(1 \<mapsto> u @ a # k, 2 \<mapsto> v)\<rparr>)"
    using Cons[of "Some a" "u @ [a]"]
    by (simp only: append_assoc append_Cons append_Nil cong: option.case_cong prod.case_cong)
  show ?case
    by (subst lazy_dot_unfold) (auto simp: sepTail_simps ih simp del: One_nat_def split: option.splits)
qed

lemma seq_Cons2: "seq (r # r' # rs) = Seq r (seq (r' # rs))"
  by simp

lemma rmatch_Chr_lit [simp]:
  "rmatch (Chr a) \<lparr>prev = p, rest = [], caps = c\<rparr> k = None"
  "rmatch (Chr a) \<lparr>prev = p, rest = d # s, caps = c\<rparr> k =
     (if d = a then k \<lparr>prev = Some d, rest = s, caps = c\<rparr> else None)"
  by (simp_all add: rmatch.simps)

lemma rmatch_NotChr_lit [simp]:
  "rmatch (NotChr a) \<lparr>prev = p, rest = [], caps = c\<rparr> k = None"
  "rmatch (NotChr a) \<lparr>prev = p, rest = d # s, caps = c\<rparr> k =
     (if d = a then None else k \<lparr>prev = Some d, rest = s, caps = c\<rparr>)"
  by (simp_all add: rmatch.simps)

lemma rmatch_Bol_lit [simp]:
  "rmatch Bol \<lparr>prev = p, rest = s, caps = c\<rparr> k =
     (if bolp p then k \<lparr>prev = p, rest = s, caps = c\<rparr> else None)"
  by (simp add: rmatch.simps atLineStart_def bolp_def)

lemma rmatch_Eol_lit [simp]:
  "rmatch Eol \<lparr>prev = p, rest = s, caps = c\<rparr> k =
     (if atLineEnd \<lparr>prev = p, rest = s, caps = c\<rparr> then k \<lparr>prev = p, rest = s, caps = c\<rparr> else None)"
  by (simp add: rmatch.simps)

lemma rmatch_NotBehind_lit [simp]:
  "rmatch (NotBehind a) \<lparr>prev = p, rest = s, caps = c\<rparr> k =
     (if p = Some a then None else k \<lparr>prev = p, rest = s, caps = c\<rparr>)"
  by (simp add: rmatch.simps)

lemma entryRe_cont:
  "rmatch entryRe x k =
     rmatch Bol x (\<lambda>y. rmatch (Chr DASH) y (\<lambda>y. rmatch (Group 1 (LazyStar Dot)) y
       (\<lambda>y. rmatch (NotBehind BSL) y (\<lambda>y. rmatch (Chr COLON) y
         (\<lambda>y. rmatch (Group 2 (Star Dot)) y (\<lambda>y. rmatch Eol y k))))))"
  by (simp only: entryRe_def seq_Cons2 seq.simps(2) rmatch.simps(5))

lemma entryRe_line:
  assumes "bolp p"
  shows "rmatch entryRe \<lparr>prev = p, rest = s, caps = c\<rparr> Some =
     (case entryLine (lineOf s) of
        None \<Rightarrow> None
      | Some (k, v) \<Rightarrow>
          Some \<lparr>prev = prevAfter p (lineOf s), rest = afterLine s, caps = c(1 \<mapsto> k, 2 \<mapsto> v)\<rparr>)"
proof -
  have lazy: "\<And>s1. rmatch (Group 1 (LazyStar Dot)) \<lparr>prev = Some DASH, rest = s1, caps = c\<rparr> (sepTail COLON) =
     (case splitUnescaped COLON (Some DASH) (lineOf s1) of
        None \<Rightarrow> None
      | Some (k, v) \<Rightarrow>
          Some \<lparr>prev = prevAfter (Some DASH) (lineOf s1), rest = afterLine s1, caps = c(1 \<mapsto> k, 2 \<mapsto> v)\<rparr>)"
    using entry_lazy[of "Some DASH" _ c "Some DASH" "[]" c]
    by (simp only: rmatch.simps(10) append_Nil cong: option.case_cong prod.case_cong)
  show ?thesis
    unfolding entryRe_cont sep_tail_eq
    by (cases s) (auto simp: lazy entryLine_def assms simp del: One_nat_def split: option.splits)
qed

lemma entryRe_not_bol:
  assumes "\<not> bolp p"
  shows "rmatch entryRe \<lparr>prev = p, rest = s, caps = c\<rparr> Some = None"
  unfolding entryRe_cont using assms by simp

subsection \<open>The thumbnail expression on one line\<close>

lemma clear_upd: "(\<lambda>n. if n = m then None else c n) = c(m := None)"
  by auto

lemma consumed_Nil [simp]:
  "consumed \<lparr>prev = p0, rest = u, caps = c0\<rparr> \<lparr>prev = q, rest = [], caps = c\<rparr> = u"
  by (simp add: consumed_def)

lemma length_afterLine_less: "length (afterLine s) < Suc (length s)"
  by (simp add: length_afterLine)

lemma thumb_opt_eq:
  "rmatch (Opt (Seq (NotBehind BSL) (Seq (Chr BAR) (Group 2 (Star Dot))))) x (\<lambda>y. rmatch Eol y Some) =
   thumbTail x"
proof (cases x)
  case (fields p s c)
  have g: "\<And>q s' c' P. rmatch (Group 2 (Star Dot)) \<lparr>prev = q, rest = s', caps = c'\<rparr>
              (\<lambda>y. if P (rest y) then rmatch Eol y Some else None) =
       (if P (afterLine s')
        then Some \<lparr>prev = prevAfter q (lineOf s'), rest = afterLine s', caps = c'(2 \<mapsto> lineOf s')\<rparr>
        else None)"
    by (subst group_star_dot) simp_all
  have g': "\<And>q s' c' n. rmatch (Group 2 (Star Dot)) \<lparr>prev = q, rest = s', caps = c'\<rparr>
              (\<lambda>y. if length (rest y) < n then rmatch Eol y Some else None) =
       (if length (afterLine s') < n
        then Some \<lparr>prev = prevAfter q (lineOf s'), rest = afterLine s', caps = c'(2 \<mapsto> lineOf s')\<rparr>
        else None)"
    using g[where P = "\<lambda>r. length r < _"] by simp
  show ?thesis
    unfolding fields thumbTail_def
    by (cases s)
       (simp_all add: rmatch.simps(5,9) clearCaps_def clear_upd sepTail_simps g'
          length_afterLine_less)
qed

lemma thumbTail_simps:
  "thumbTail \<lparr>prev = q, rest = [], caps = c\<rparr> = Some \<lparr>prev = q, rest = [], caps = c\<rparr>"
  "thumbTail \<lparr>prev = q, rest = a # s, caps = c\<rparr> =
     (if a = BAR \<and> q \<noteq> Some BSL
      then Some \<lparr>prev = prevAfter (Some BAR) (lineOf s), rest = afterLine s, caps = c(2 \<mapsto> lineOf s)\<rparr>
      else if lineTerminator a then Some \<lparr>prev = q, rest = a # s, caps = c\<rparr> else None)"
  by (simp_all add: thumbTail_def sepTail_simps)

lemma thumb_lazy:
  "rmatch (LazyStar Dot) \<lparr>prev = q, rest = s, caps = c\<rparr>
     (\<lambda>y. thumbTail (y\<lparr>caps := (caps y)(1 \<mapsto> consumed \<lparr>prev = p0, rest = u @ s, caps = c0\<rparr> y)\<rparr>)) =
   (case splitUnescaped BAR q (lineOf s) of
      None \<Rightarrow>
        Some \<lparr>prev = prevAfter q (lineOf s), rest = afterLine s, caps = c(1 \<mapsto> u @ lineOf s)\<rparr>
    | Some (k, v) \<Rightarrow>
        Some \<lparr>prev = prevAfter q (lineOf s), rest = afterLine s, caps = c(1 \<mapsto> u @ k, 2 \<mapsto> v)\<rparr>)"
proof (induction s arbitrary: q u)
  case Nil
  show ?case by (subst lazy_dot_unfold) (simp add: thumbTail_simps)
next
  case (Cons a s)
  have ih: "rmatch (LazyStar Dot) \<lparr>prev = Some a, rest = s, caps = c\<rparr>
     (\<lambda>y. thumbTail (y\<lparr>caps := (caps y)(1 \<mapsto> consumed \<lparr>prev = p0, rest = u @ a # s, caps = c0\<rparr> y)\<rparr>)) =
   (case splitUnescaped BAR (Some a) (lineOf s) of
      None \<Rightarrow>
        Some \<lparr>prev = prevAfter (Some a) (lineOf s), rest = afterLine s, caps = c(1 \<mapsto> u @ a # lineOf s)\<rparr>
    | Some (k, v) \<Rightarrow>
        Some \<lparr>prev = prevAfter (Some a) (lineOf s), rest = afterLine s, caps = c(1 \<mapsto> u @ a # k, 2 \<mapsto> v)\<rparr>)"
    using Cons[of "Some a" "u @ [a]"]
    by (simp only: append_assoc append_Cons append_Nil cong: option.case_cong prod.case_cong)
  show ?case
    by (subst lazy_dot_unfold)
       (auto simp: thumbTail_simps ih simp del: One_nat_def split: option.splits)
qed

lemma thumbnailRe_cont:
  "rmatch thumbnailRe x k =
     rmatch Bol x (\<lambda>y. rmatch (Chr BANG) y (\<lambda>y. rmatch (Group 1 (LazyStar Dot)) y
       (\<lambda>y. rmatch (Opt (Seq (NotBehind BSL) (Seq (Chr BAR) (Group 2 (Star Dot))))) y
         (\<lambda>y. rmatch Eol y k))))"
  by (simp only: thumbnailRe_def seq_Cons2 seq.simps(2) rmatch.simps(5))

lemma thumbnailRe_line:
  assumes "bolp p"
  shows "rmatch thumbnailRe \<lparr>prev = p, rest = s, caps = \<lambda>_. None\<rparr> Some =
     (case thumbLine (lineOf s) of
        None \<Rightarrow> None
      | Some ud \<Rightarrow>
          Some \<lparr>prev = prevAfter p (lineOf s), rest = afterLine s, caps = thumbCaps ud\<rparr>)"
proof -
  have lazy: "\<And>s1 c. rmatch (Group 1 (LazyStar Dot)) \<lparr>prev = Some BANG, rest = s1, caps = c\<rparr> thumbTail =
     (case splitUnescaped BAR (Some BANG) (lineOf s1) of
      None \<Rightarrow>
        Some \<lparr>prev = prevAfter (Some BANG) (lineOf s1), rest = afterLine s1, caps = c(1 \<mapsto> lineOf s1)\<rparr>
    | Some (k, v) \<Rightarrow>
        Some \<lparr>prev = prevAfter (Some BANG) (lineOf s1), rest = afterLine s1, caps = c(1 \<mapsto> k, 2 \<mapsto> v)\<rparr>)"
    using thumb_lazy[of "Some BANG" _ _ "Some BANG" "[]"]
    by (simp only: rmatch.simps(10) append_Nil cong: option.case_cong prod.case_cong)
  show ?thesis
    unfolding thumbnailRe_cont thumb_opt_eq
    by (cases s)
       (auto simp: lazy thumbLine_def thumbCaps_def assms simp del: One_nat_def split: option.splits)
qed

lemma thumbnailRe_not_bol:
  assumes "\<not> bolp p"
  shows "rmatch thumbnailRe \<lparr>prev = p, rest = s, caps = c\<rparr> Some = None"
  unfolding thumbnailRe_cont using assms by simp

subsection \<open>The group expression at one position\<close>

lemma regionOf_simps [simp]:
  "regionOf [] = []"
  "regionOf (a # s) = (if a = HASH then [] else a # regionOf s)"
  by (simp_all add: regionOf_def)

lemma afterRegion_simps [simp]:
  "afterRegion [] = []"
  "afterRegion (a # s) = (if a = HASH then a # s else afterRegion s)"
  by (simp_all add: afterRegion_def)

lemma regionOf_afterRegion: "regionOf s @ afterRegion s = s"
  by (simp add: regionOf_def afterRegion_def)

lemma afterRegion_cases: "afterRegion s = [] \<or> (\<exists>s'. afterRegion s = HASH # s')"
  by (induction s) auto

lemma take_regionOf: "take (length s - length (afterRegion s)) s = regionOf s"
proof -
  have "length (afterRegion s) = length s - length (regionOf s)"
    by (induction s) auto
  moreover have "length (regionOf s) \<le> length s"
    by (induction s) auto
  ultimately show ?thesis
    using regionOf_afterRegion[of s] by (metis append_eq_conv_conj diff_diff_cancel)
qed

lemma ahead_eq:
  "rmatch (Ahead (Alt (Chr HASH) Eol)) \<lparr>prev = p, rest = s, caps = c\<rparr> Some =
     (if (case s of [] \<Rightarrow> True | a # _ \<Rightarrow> a = HASH \<or> lineTerminator a)
      then Some \<lparr>prev = p, rest = s, caps = c\<rparr> else None)"
  by (cases s) (simp_all add: rmatch.simps(6,14))

lemma star_alt_greedy:
  assumes "k \<lparr>prev = prevAfter p (regionOf s), rest = afterRegion s, caps = c\<rparr> = Some z"
  shows "rmatch (Star (Alt (NotChr HASH) (Chr LF))) \<lparr>prev = p, rest = s, caps = c\<rparr> k = Some z"
  using assms
proof (induction s arbitrary: p)
  case Nil
  then show ?case by (simp add: rmatch.simps(6,7))
next
  case (Cons a s)
  show ?case
  proof (cases "a = HASH")
    case True
    with Cons.prems show ?thesis by (simp add: rmatch.simps(6,7))
  next
    case False
    with Cons.prems have "k \<lparr>prev = prevAfter (Some a) (regionOf s), rest = afterRegion s, caps = c\<rparr> = Some z"
      by simp
    from Cons.IH[OF this] False show ?thesis by (simp add: rmatch.simps(6,7))
  qed
qed

lemma group2_region:
  "rmatch (Group 2 (Star (Alt (NotChr HASH) (Chr LF)))) \<lparr>prev = p, rest = s, caps = c\<rparr>
     (\<lambda>y. rmatch (Ahead (Alt (Chr HASH) Eol)) y Some) =
   Some \<lparr>prev = prevAfter p (regionOf s), rest = afterRegion s, caps = c(2 \<mapsto> regionOf s)\<rparr>"
proof -
  have "(case afterRegion s of [] \<Rightarrow> True | a # _ \<Rightarrow> a = HASH \<or> lineTerminator a)"
    using afterRegion_cases[of s] by auto
  then show ?thesis
    by (simp only: rmatch.simps(10))
       (rule star_alt_greedy, simp add: ahead_eq consumed_def take_regionOf)
qed

lemma groupRe_cont:
  "rmatch groupRe x k =
     rmatch Bol x (\<lambda>y. rmatch (Chr HASH) y (\<lambda>y. rmatch (Group 1 (Star Dot)) y
       (\<lambda>y. rmatch (Chr LF) y (\<lambda>y. rmatch (Chr DASH) y
         (\<lambda>y. rmatch (Group 2 (Star (Alt (NotChr HASH) (Chr LF)))) y
           (\<lambda>y. rmatch (Ahead (Alt (Chr HASH) Eol)) y k))))))"
  by (simp only: groupRe_def seq_Cons2 seq.simps(2) rmatch.simps(5))

lemma not_lt_LF: "\<not> lineTerminator a \<Longrightarrow> a \<noteq> LF"
  by (auto simp: lineTerminator_def)

lemma groupRe_at:
  "rmatch groupRe \<lparr>prev = p, rest = s, caps = c\<rparr> Some =
     (if bolp p then
        (case groupHead s of
           None \<Rightarrow> None
         | Some (n, s2) \<Rightarrow>
             Some \<lparr>prev = prevAfter (Some DASH) (regionOf s2), rest = afterRegion s2,
                   caps = c(1 \<mapsto> n, 2 \<mapsto> regionOf s2)\<rparr>)
      else None)"
proof (cases s)
  case Nil
  then show ?thesis by (simp add: groupRe_cont groupHead_def)
next
  case (Cons a s1)
  have g1: "rmatch (Group 1 (Star Dot)) \<lparr>prev = Some HASH, rest = s1, caps = c\<rparr>
       (\<lambda>y. rmatch (Chr LF) y (\<lambda>y. rmatch (Chr DASH) y
         (\<lambda>y. rmatch (Group 2 (Star (Alt (NotChr HASH) (Chr LF)))) y
           (\<lambda>y. rmatch (Ahead (Alt (Chr HASH) Eol)) y Some)))) =
      rmatch (Chr LF) \<lparr>prev = prevAfter (Some HASH) (lineOf s1), rest = afterLine s1, caps = c(1 \<mapsto> lineOf s1)\<rparr>
       (\<lambda>y. rmatch (Chr DASH) y
         (\<lambda>y. rmatch (Group 2 (Star (Alt (NotChr HASH) (Chr LF)))) y
           (\<lambda>y. rmatch (Ahead (Alt (Chr HASH) Eol)) y Some)))"
    by (subst group_star_dot) (simp_all add: not_lt_LF)
  show ?thesis
    unfolding groupRe_cont Cons
    by (auto simp: g1 groupHead_def group2_region simp del: One_nat_def split: list.splits)
qed

subsection \<open>\<^verbatim>\<open>matchAll\<close> with a one-line expression, line by line\<close>

lemma jsLines_unfold:
  "jsLines s = (case afterLine s of [] \<Rightarrow> [lineOf s] | t # s' \<Rightarrow> lineOf s # jsLines s')"
  by (induction s) (auto split: list.splits)

lemma exec_lit:
  "exec r \<lparr>prev = p, rest = s, caps = c\<rparr> =
     (case rmatch r \<lparr>prev = p, rest = s, caps = \<lambda>_. None\<rparr> Some of
        Some y \<Rightarrow> Some (\<lparr>prev = p, rest = s, caps = c\<rparr>, y)
      | None \<Rightarrow> (case s of [] \<Rightarrow> None | a # s' \<Rightarrow> exec r \<lparr>prev = Some a, rest = s', caps = c\<rparr>))"
  by (subst exec.simps) (simp split: option.splits list.splits)

lemma exec_skip_line:
  assumes A: "\<And>p s c. \<not> bolp p \<Longrightarrow> rmatch r \<lparr>prev = p, rest = s, caps = c\<rparr> Some = None"
  shows "\<not> bolp q \<Longrightarrow>
     exec r \<lparr>prev = q, rest = s, caps = c\<rparr> =
       (case afterLine s of [] \<Rightarrow> None | t # s' \<Rightarrow> exec r \<lparr>prev = Some t, rest = s', caps = c\<rparr>)"
proof (induction s arbitrary: q)
  case Nil
  then show ?case by (subst exec_lit) (simp add: A)
next
  case (Cons a s)
  show ?case
  proof (cases "lineTerminator a")
    case True
    with Cons.prems show ?thesis by (subst exec_lit) (simp add: A)
  next
    case False
    then have "\<not> bolp (Some a)" by (simp add: bolp_def)
    from Cons.IH[OF this] Cons.prems False show ?thesis
      by (subst exec_lit) (simp add: A)
  qed
qed

lemma matchAllFrom_cong: "exec r x = exec r x' \<Longrightarrow> matchAllFrom r x = matchAllFrom r x'"
  by (subst matchAllFrom.simps, subst (2) matchAllFrom.simps) simp

lemma matchAllFrom_None: "exec r x = None \<Longrightarrow> matchAllFrom r x = []"
  by (subst matchAllFrom.simps) simp

lemma afterLine_idem [simp]: "afterLine (afterLine s) = afterLine s"
  by (induction s) auto

lemma matchAll_lines_aux:
  fixes f :: "jsstring \<Rightarrow> (nat \<Rightarrow> jsstring option) option"
  assumes A: "\<And>p s c. \<not> bolp p \<Longrightarrow> rmatch r \<lparr>prev = p, rest = s, caps = c\<rparr> Some = None"
    and B: "\<And>p s. bolp p \<Longrightarrow>
              rmatch r \<lparr>prev = p, rest = s, caps = \<lambda>_. None\<rparr> Some =
                (case f (lineOf s) of
                   None \<Rightarrow> None
                 | Some cp \<Rightarrow> Some \<lparr>prev = prevAfter p (lineOf s), rest = afterLine s, caps = cp\<rparr>)"
    and C: "f [] = None"
  shows "bolp p \<Longrightarrow>
     map caps (matchAllFrom r \<lparr>prev = p, rest = s, caps = c\<rparr>) = List.map_filter f (jsLines s)"
proof (induction s arbitrary: p c rule: length_induct)
  case (1 s)
  let ?x = "\<lparr>prev = p, rest = s, caps = c\<rparr>"
  have next_line: "map caps (matchAllFrom r \<lparr>prev = q, rest = afterLine s, caps = c'\<rparr>) =
      (case afterLine s of [] \<Rightarrow> [] | t # s' \<Rightarrow> List.map_filter f (jsLines s'))"
    if q: "\<not> bolp q" for q c'
  proof (cases "afterLine s")
    case Nil
    then show ?thesis
      using exec_skip_line[OF A q, of "afterLine s" c'] by (simp add: matchAllFrom_None)
  next
    case (Cons t s')
    have "length s' < length s"
      using Cons length_afterLine[of s] by simp
    moreover have t: "lineTerminator t"
      using Cons afterLine_cases[of s] by auto
    then have "bolp (Some t)" by (simp add: bolp_def)
    ultimately have "map caps (matchAllFrom r \<lparr>prev = Some t, rest = s', caps = c'\<rparr>) =
        List.map_filter f (jsLines s')"
      using 1 by blast
    moreover have "matchAllFrom r \<lparr>prev = q, rest = afterLine s, caps = c'\<rparr> =
        matchAllFrom r \<lparr>prev = Some t, rest = s', caps = c'\<rparr>"
      by (rule matchAllFrom_cong) (use exec_skip_line[OF A q, of "afterLine s" c'] Cons t in simp)
    ultimately show ?thesis using Cons by simp
  qed
  show ?case
  proof (cases "f (lineOf s)")
    case (Some cp)
    then have ne: "lineOf s \<noteq> []" using C by auto
    let ?e = "\<lparr>prev = prevAfter p (lineOf s), rest = afterLine s, caps = cp\<rparr>"
    have ex: "exec r ?x = Some (?x, ?e)"
      by (subst exec_lit) (simp add: B[OF 1(2)] Some)
    have lt: "length (afterLine s) < length s"
      using ne length_afterLine[of s] lineOf_afterLine[of s]
      by (metis append_self_conv2 diff_less length_greater_0_conv length_append add_diff_cancel_right' less_add_same_cancel2)
    have nb: "\<not> bolp (prevAfter p (lineOf s))"
      using ne lineOf_noLT[of "last (lineOf s)" s] by (simp add: prevAfter_def bolp_def)
    have "matchAllFrom r ?x = ?e # matchAllFrom r ?e"
      by (subst matchAllFrom.simps) (simp add: ex lt)
    then show ?thesis
      using next_line[OF nb, of cp] Some
      by (subst jsLines_unfold) (simp split: list.splits)
  next
    case None
    have rm: "rmatch r \<lparr>prev = p, rest = s, caps = \<lambda>_. None\<rparr> Some = None"
      by (simp add: B[OF 1(2)] None)
    show ?thesis
    proof (cases s)
      case Nil
      have "exec r ?x = None"
        by (subst exec_lit) (simp add: rm, simp add: Nil)
      then show ?thesis
        using Nil by (simp add: matchAllFrom_None C)
    next
      case (Cons a s0)
      have ex: "exec r ?x = exec r \<lparr>prev = Some a, rest = s0, caps = c\<rparr>"
        by (subst exec_lit) (simp add: rm, simp add: Cons)
      show ?thesis
      proof (cases "lineTerminator a")
        case True
        then have "bolp (Some a)" by (simp add: bolp_def)
        moreover have "length s0 < length s" using Cons by simp
        ultimately have "map caps (matchAllFrom r \<lparr>prev = Some a, rest = s0, caps = c\<rparr>) =
            List.map_filter f (jsLines s0)"
          using 1 by blast
        then show ?thesis
          using matchAllFrom_cong[OF ex] Cons True C by simp
      next
        case False
        then have nb: "\<not> bolp (Some a)" by (simp add: bolp_def)
        have al: "afterLine s = afterLine s0" using Cons False by simp
        have "exec r ?x = exec r \<lparr>prev = Some a, rest = afterLine s, caps = c\<rparr>"
          unfolding ex al
          using exec_skip_line[OF A nb, of s0 c] exec_skip_line[OF A nb, of "afterLine s0" c]
          by simp
        from matchAllFrom_cong[OF this] next_line[OF nb, of c] None show ?thesis
          by (subst jsLines_unfold) (simp split: list.splits)
      qed
    qed
  qed
qed

lemma matchAll_lines:
  fixes f :: "jsstring \<Rightarrow> (nat \<Rightarrow> jsstring option) option"
  assumes "\<And>p s c. \<not> bolp p \<Longrightarrow> rmatch r \<lparr>prev = p, rest = s, caps = c\<rparr> Some = None"
    and "\<And>p s. bolp p \<Longrightarrow>
              rmatch r \<lparr>prev = p, rest = s, caps = \<lambda>_. None\<rparr> Some =
                (case f (lineOf s) of
                   None \<Rightarrow> None
                 | Some cp \<Rightarrow> Some \<lparr>prev = prevAfter p (lineOf s), rest = afterLine s, caps = cp\<rparr>)"
    and "f [] = None"
  shows "matchAll r s = List.map_filter f (jsLines s)"
  unfolding matchAll_def
  by (rule matchAll_lines_aux[OF assms]) (simp_all add: bolp_def)

subsection \<open>The value separator, entries and thumbnails\<close>

lemma splitOnUnescaped_nonempty [simp]: "splitOnUnescaped d q s \<noteq> []"
  by (induction s arbitrary: q) (auto split: list.splits)

lemma valueSepRe_at:
  "rmatch valueSepRe \<lparr>prev = q, rest = s, caps = c\<rparr> Some =
     (case s of
        [] \<Rightarrow> None
      | a # s' \<Rightarrow>
          if a = SEMI \<and> q \<noteq> Some BSL then Some \<lparr>prev = Some SEMI, rest = s', caps = c\<rparr> else None)"
  unfolding valueSepRe_def seq_Cons2 seq.simps(2)
  by (cases s) (simp_all add: rmatch.simps(5))

lemma splitLoop_valueSep:
  "splitLoop valueSepRe seg \<lparr>prev = q, rest = s, caps = c\<rparr> =
     (case splitOnUnescaped SEMI q s of [] \<Rightarrow> [seg] | x # xs \<Rightarrow> (seg @ x) # xs)"
proof (induction s arbitrary: seg q c)
  case Nil
  show ?case by (subst splitLoop.simps) simp
next
  case (Cons a s)
  show ?case
    by (subst splitLoop.simps) (auto simp: valueSepRe_at Cons split: list.splits)
qed

lemma jsSplit_valueSep: "jsSplit valueSepRe v = splitOnUnescaped SEMI None v"
  by (cases "splitOnUnescaped SEMI None v")
     (auto simp: jsSplit_def valueSepRe_at splitLoop_valueSep)

lemma mkEntry_caps: "mkEntry [1 \<mapsto> k, 2 \<mapsto> v] = Inr (entryOf k v)"
  by (simp add: mkEntry_def entryOf_def jsSplit_valueSep Let_def del: One_nat_def)

lemma matchAll_entryRe: "matchAll entryRe s = List.map_filter entryCaps (jsLines s)"
proof (rule matchAll_lines)
  show "rmatch entryRe \<lparr>prev = p, rest = s, caps = c\<rparr> Some = None" if "\<not> bolp p" for p s c
    using that by (rule entryRe_not_bol)
  show "rmatch entryRe \<lparr>prev = p, rest = s, caps = \<lambda>_. None\<rparr> Some =
      (case entryCaps (lineOf s) of
         None \<Rightarrow> None
       | Some cp \<Rightarrow> Some \<lparr>prev = prevAfter p (lineOf s), rest = afterLine s, caps = cp\<rparr>)"
    if "bolp p" for p s
    by (simp add: entryRe_line[OF that] entryCaps_def del: One_nat_def split: option.splits)
  show "entryCaps [] = None"
    by (simp add: entryCaps_def entryLine_def)
qed

lemma mapE_entries:
  "mapE mkEntry (List.map_filter entryCaps ls) =
     Inr (map (\<lambda>(k, v). entryOf k v) (List.map_filter entryLine ls))"
  by (induction ls)
     (auto simp: entryCaps_def mkEntry_caps simp del: One_nat_def
        split: option.splits)

lemma parseEntries_lines:
  "parseEntries region =
     Inr (map (\<lambda>(k, v). entryOf k v) (List.map_filter entryLine (jsLines region)))"
  by (simp add: parseEntries_def matchAll_entryRe mapE_entries)

lemma matchAll_thumbnailRe: "matchAll thumbnailRe s = List.map_filter thumbCapsOf (jsLines s)"
proof (rule matchAll_lines)
  show "rmatch thumbnailRe \<lparr>prev = p, rest = s, caps = c\<rparr> Some = None" if "\<not> bolp p" for p s c
    using that by (rule thumbnailRe_not_bol)
  show "rmatch thumbnailRe \<lparr>prev = p, rest = s, caps = \<lambda>_. None\<rparr> Some =
      (case thumbCapsOf (lineOf s) of
         None \<Rightarrow> None
       | Some cp \<Rightarrow> Some \<lparr>prev = prevAfter p (lineOf s), rest = afterLine s, caps = cp\<rparr>)"
    if "bolp p" for p s
    by (simp add: thumbnailRe_line[OF that] thumbCapsOf_def split: option.splits)
  show "thumbCapsOf [] = None"
    by (simp add: thumbCapsOf_def thumbLine_def)
qed

lemma mkThumbnail_caps: "mkThumbnail g (thumbCaps ud) = Inr (thumbOf g ud)"
  by (cases ud) (auto simp: mkThumbnail_def thumbCaps_def thumbOf_def simp del: One_nat_def split: option.splits)

lemma mapE_thumbs:
  "mapE (mkThumbnail g) (List.map_filter thumbCapsOf ls) =
     Inr (map (thumbOf g) (List.map_filter thumbLine ls))"
  by (induction ls)
     (auto simp: thumbCapsOf_def mkThumbnail_caps split: option.splits)

lemma thumbnails_lines:
  "mapE (mkThumbnail g) (matchAll thumbnailRe source) =
     Inr (map (thumbOf g) (List.map_filter thumbLine (jsLines source)))"
  by (simp add: matchAll_thumbnailRe mapE_thumbs)

subsection \<open>Where the group matches come from\<close>

lemma rmatch_suffix:
  "rmatch r x k = Some z \<Longrightarrow> \<exists>y. k y = Some z \<and> suffix (rest y) (rest x)"
proof (induction r x k arbitrary: z rule: rmatch.induct)
  case (1 x k)
  then show ?case by (auto simp: rmatch.simps)
next
  case (2 c x k)
  then show ?case by (auto simp: rmatch.simps step_def suffix_Cons split: list.splits if_splits)
next
  case (3 x k)
  then show ?case by (auto simp: rmatch.simps step_def suffix_Cons split: list.splits if_splits)
next
  case (4 c x k)
  then show ?case by (auto simp: rmatch.simps step_def suffix_Cons split: list.splits if_splits)
next
  case (5 r1 r2 x k)
  from 5(2)[of z] 5(3) obtain y
    where "rmatch r2 y k = Some z" "suffix (rest y) (rest x)" by (auto simp: rmatch.simps)
  with 5(1)[of y z] show ?case by (meson suffix_order.trans)
next
  case (6 r1 r2 x k)
  then show ?case by (auto simp: rmatch.simps split: option.splits)
next
  case (7 r x k)
  show ?case
  proof (cases "rmatch r (clearCaps r x)
      (\<lambda>y. if length (rest y) < length (rest x) then rmatch (Star r) y k else None)")
    case None
    with 7(3) show ?thesis by (auto simp: rmatch.simps)
  next
    case (Some w)
    with 7(3) have w: "w = z" by (simp add: rmatch.simps)
    from 7(2)[of z] Some w obtain y
      where y: "length (rest y) < length (rest x)" "rmatch (Star r) y k = Some z"
        "suffix (rest y) (rest x)"
      by (auto simp: clearCaps_def split: if_splits)
    from 7(1)[OF y(1) y(2)] y(3) show ?thesis by (meson suffix_order.trans)
  qed
next
  case (8 r x k)
  show ?case
  proof (cases "k x")
    case (Some w)
    with 8(3) show ?thesis by (auto simp: rmatch.simps)
  next
    case None
    with 8(3) have "rmatch r (clearCaps r x)
      (\<lambda>y. if length (rest y) < length (rest x) then rmatch (LazyStar r) y k else None) = Some z"
      by (simp add: rmatch.simps)
    from 8(2)[OF None this] obtain y
      where y: "length (rest y) < length (rest x)" "rmatch (LazyStar r) y k = Some z"
        "suffix (rest y) (rest x)"
      by (auto simp: clearCaps_def split: if_splits)
    from 8(1)[OF None y(1) y(2)] y(3) show ?thesis by (meson suffix_order.trans)
  qed
next
  case (9 r x k)
  show ?case
  proof (cases "rmatch r (clearCaps r x)
      (\<lambda>y. if length (rest y) < length (rest x) then k y else None)")
    case None
    with 9(2) show ?thesis by (auto simp: rmatch.simps)
  next
    case (Some w)
    with 9(2) have "w = z" by (simp add: rmatch.simps)
    with 9(1)[of z] Some show ?thesis by (fastforce simp: clearCaps_def split: if_splits)
  qed
next
  case (10 n r x k)
  from 10(1)[of z] 10(2) show ?case by (fastforce simp: rmatch.simps)
next
  case (11 x k)
  then show ?case by (auto simp: rmatch.simps split: if_splits)
next
  case (12 x k)
  then show ?case by (auto simp: rmatch.simps split: if_splits)
next
  case (13 c x k)
  then show ?case by (auto simp: rmatch.simps split: if_splits)
next
  case (14 r x k)
  then show ?case by (auto simp: rmatch.simps split: option.splits)
qed

lemma exec_suffix:
  "exec r x = Some (s, e) \<Longrightarrow>
     suffix (rest s) (rest x) \<and> suffix (rest e) (rest s) \<and>
     rmatch r (s\<lparr>caps := \<lambda>_. None\<rparr>) Some = Some e"
proof (induction r x rule: exec.induct)
  case (1 r x)
  show ?case
  proof (cases "rmatch r (x\<lparr>caps := \<lambda>_. None\<rparr>) Some")
    case (Some y)
    with 1(2) have "s = x" "e = y" by (simp_all add: exec.simps[of r x])
    with rmatch_suffix[OF Some] Some show ?thesis by auto
  next
    case None
    with 1(2) obtain c cs where r: "rest x = c # cs" and "exec r (step x) = Some (s, e)"
      by (auto simp: exec.simps[of r x] split: list.splits)
    with 1(1)[OF None r] show ?thesis by (auto simp: step_def suffix_Cons)
  qed
qed

lemma matchAllFrom_elem:
  "y \<in> set (matchAllFrom r x) \<Longrightarrow>
     \<exists>s. suffix (rest s) (rest x) \<and> rmatch r (s\<lparr>caps := \<lambda>_. None\<rparr>) Some = Some y"
proof (induction r x rule: matchAllFrom.induct)
  case (1 r x)
  show ?case
  proof (cases "exec r x")
    case None
    with 1(3) show ?thesis by (simp add: matchAllFrom.simps[of r x])
  next
    case (Some se)
    obtain s e where se: "se = (s, e)" by (cases se)
    note ex = exec_suffix[OF Some[unfolded se]]
    show ?thesis
    proof (cases "y = e")
      case True
      with ex show ?thesis by auto
    next
      case False
      show ?thesis
      proof (cases "length (rest e) < length (rest s)")
        case True
        with 1(3) Some se False have "y \<in> set (matchAllFrom r e)"
          by (simp add: matchAllFrom.simps[of r x])
        from 1(1)[OF Some se[symmetric] True this] ex show ?thesis
          by (meson suffix_order.trans)
      next
        case nl: False
        with 1(3) Some se False obtain c cs where
          re: "rest e = c # cs" and "y \<in> set (matchAllFrom r (step e))"
          by (cases "rest e") (auto simp: matchAllFrom.simps[of r x])
        from 1(2)[OF Some se[symmetric] nl re this(2)] obtain s' where
          s': "suffix (rest s') (rest (step e))"
              "rmatch r (s'\<lparr>caps := \<lambda>_. None\<rparr>) Some = Some y" by blast
        from s'(1) re have "suffix (rest s') (rest e)"
          by (simp add: step_def suffix_Cons)
        with ex s'(2) show ?thesis
          by (meson suffix_order.trans)
      qed
    qed
  qed
qed

lemma groupHead_Some:
  "groupHead s = Some (n, s2) \<Longrightarrow> s = HASH # n @ LF # DASH # s2 \<and> (\<forall>c\<in>set n. \<not> lineTerminator c)"
proof -
  assume a: "groupHead s = Some (n, s2)"
  then obtain s1 where s: "s = HASH # s1" and n: "lineOf s1 = n" and al: "afterLine s1 = LF # DASH # s2"
    by (auto simp: groupHead_def split: list.splits if_splits)
  have 1: "s1 = n @ LF # DASH # s2"
    using lineOf_afterLine[of s1] unfolding n al by simp
  have 2: "\<forall>c\<in>set n. \<not> lineTerminator c"
    using lineOf_noLT[of _ s1] unfolding n by blast
  show ?thesis
    unfolding s using 1 2 by blast
qed

lemma mkGroup_caps: "mkGroup (c(1 \<mapsto> n, 2 \<mapsto> b)) = Inr (groupOf n b)"
  by (simp add: mkGroup_def groupOf_def parseEntries_lines del: One_nat_def)

lemma group_match_elem:
  assumes "y \<in> set (matchAllFrom groupRe x)"
  shows "\<exists>u n s2. rest x = u @ HASH # n @ LF # DASH # s2 \<and> (\<forall>c\<in>set n. \<not> lineTerminator c) \<and>
           mkGroup (caps y) = Inr (groupOf n (regionOf s2))"
proof -
  from matchAllFrom_elem[OF assms] obtain s where
    s: "suffix (rest s) (rest x)" "rmatch groupRe (s\<lparr>caps := \<lambda>_. None\<rparr>) Some = Some y"
    by blast
  obtain p t c where f: "s = \<lparr>prev = p, rest = t, caps = c\<rparr>" by (cases s)
  from s(2) f obtain n s2 where
    gh: "groupHead t = Some (n, s2)" and y: "caps y = [1 \<mapsto> n, 2 \<mapsto> regionOf s2]"
    by (auto simp: groupRe_at simp del: One_nat_def split: if_splits option.splits)
  from s(1) f obtain u where "rest x = u @ t" by (auto simp: suffix_def)
  with groupHead_Some[OF gh] y mkGroup_caps[of "\<lambda>_. None" n "regionOf s2"] show ?thesis
    by auto
qed

lemma mapE_Inr_iff: "mapE f xs = Inr ys \<longleftrightarrow> list_all2 (\<lambda>x y. f x = Inr y) xs ys"
proof (induction xs arbitrary: ys)
  case Nil
  show ?case by auto
next
  case (Cons a xs)
  show ?case
  proof (cases ys)
    case Nil
    then show ?thesis by (auto split: sum.splits)
  next
    case ys: (Cons b bs)
    show ?thesis
      unfolding ys using Cons[of bs] by (auto split: sum.splits)
  qed
qed

lemma mapE_total:
  assumes "\<And>x. x \<in> set xs \<Longrightarrow> \<exists>y. f x = Inr y"
  shows "\<exists>ys. mapE f xs = Inr ys"
  using assms
proof (induction xs)
  case Nil
  show ?case by simp
next
  case (Cons a xs)
  then obtain b bs where "f a = Inr b" "mapE f xs = Inr bs" by (metis list.set_intros)
  then show ?case by simp
qed

lemma mapE_elem:
  assumes "mapE f xs = Inr ys" "y \<in> set ys"
  shows "\<exists>x\<in>set xs. f x = Inr y"
proof -
  from assms(1) have l: "list_all2 (\<lambda>x y. f x = Inr y) xs ys" by (simp add: mapE_Inr_iff)
  from assms(2) obtain i where "i < length ys" "ys ! i = y" by (auto simp: in_set_conv_nth)
  with l have "f (xs ! i) = Inr y" "i < length xs"
    by (auto simp: list_all2_conv_all_nth)
  then show ?thesis by auto
qed

lemma groups_total: "\<exists>gs. mapE mkGroup (matchAll groupRe source) = Inr gs"
proof (rule mapE_total)
  fix c assume "c \<in> set (matchAll groupRe source)"
  then obtain y where "y \<in> set (matchAllFrom groupRe \<lparr>prev = None, rest = source, caps = \<lambda>_. None\<rparr>)"
    "c = caps y" by (auto simp: matchAll_def)
  with group_match_elem[OF this(1)] show "\<exists>g. mkGroup c = Inr g" by auto
qed

lemma formatTable_lines:
  "\<exists>gs. mapE mkGroup (matchAll groupRe source) = Inr gs \<and>
     formatTable g source =
       Inr \<lparr>thumbnails = map (thumbOf g) (List.map_filter thumbLine (jsLines source)), groups = gs\<rparr>"
  using groups_total[of source] by (auto simp: formatTable_def thumbnails_lines)

lemma formatTable_group_elem:
  assumes "formatTable g source = Inr d" "grp \<in> set (groups d)"
  shows "\<exists>u n s2. source = u @ HASH # n @ LF # DASH # s2 \<and> (\<forall>c\<in>set n. \<not> lineTerminator c) \<and>
           grp = groupOf n (regionOf s2)"
proof -
  from formatTable_lines[of source g] assms(1) have "mapE mkGroup (matchAll groupRe source) = Inr (groups d)"
    by auto
  from mapE_elem[OF this assms(2)] obtain c where
    c: "c \<in> set (matchAll groupRe source)" "mkGroup c = Inr grp" by auto
  then obtain y where "y \<in> set (matchAllFrom groupRe \<lparr>prev = None, rest = source, caps = \<lambda>_. None\<rparr>)"
    "c = caps y" by (auto simp: matchAll_def)
  with group_match_elem[OF this(1)] c(2) show ?thesis by auto
qed

subsection \<open>Escaped positions and a line in its context\<close>

lemma unescapedAt_Suc_Suc:
  "unescapedAt d (a # b # s) (Suc (Suc i)) = unescapedAt d (b # s) (Suc i)"
  by (simp add: unescapedAt_def)

lemma unescapedAt_1:
  "unescapedAt d (a # b # s) (Suc 0) \<longleftrightarrow> b = d \<and> a \<noteq> BSL"
  by (auto simp: unescapedAt_def)

lemma splitUnescaped_None_iff:
  "splitUnescaped d (Some a) s = None \<longleftrightarrow> (\<forall>i<length s. \<not> unescapedAt d (a # s) (Suc i))"
proof (induction s arbitrary: a)
  case Nil
  show ?case by simp
next
  case (Cons b s)
  have "(\<forall>i<length (b # s). \<not> unescapedAt d (a # b # s) (Suc i)) \<longleftrightarrow>
        \<not> unescapedAt d (a # b # s) (Suc 0) \<and> (\<forall>i<length s. \<not> unescapedAt d (b # s) (Suc i))"
    by (auto simp: less_Suc_eq_0_disj unescapedAt_Suc_Suc)
  then show ?case
    using Cons[of b] by (auto simp: unescapedAt_1 split: option.splits)
qed

lemma splitUnescaped_first:
  assumes "\<forall>i<length k. \<not> unescapedAt d (a # k @ d # v) (Suc i)"
    and "unescapedAt d (a # k @ d # v) (Suc (length k))"
  shows "splitUnescaped d (Some a) (k @ d # v) = Some (k, v)"
  using assms
proof (induction k arbitrary: a)
  case Nil
  then show ?case by (simp add: unescapedAt_1)
next
  case (Cons b k)
  from Cons.prems(1) have 0: "\<not> unescapedAt d (a # b # k @ d # v) (Suc 0)" by auto
  from Cons.prems(1) have "\<forall>i<length k. \<not> unescapedAt d (a # b # k @ d # v) (Suc (Suc i))" by auto
  then have 1: "\<forall>i<length k. \<not> unescapedAt d (b # k @ d # v) (Suc i)"
    by (simp add: unescapedAt_Suc_Suc)
  from Cons.prems(2) have 2: "unescapedAt d (b # k @ d # v) (Suc (length k))"
    by (simp add: unescapedAt_Suc_Suc)
  from Cons.IH[OF 1 2] 0 show ?case by (auto simp: unescapedAt_1)
qed

lemma jsLines_nonempty [simp]: "jsLines s \<noteq> []"
  by (induction s) (auto split: list.splits)

lemma jsLines_noLT: "\<forall>c\<in>set l. \<not> lineTerminator c \<Longrightarrow> jsLines l = [l]"
  by (induction l) auto

lemma jsLines_append_LT:
  "lineTerminator t \<Longrightarrow> jsLines (a @ t # b) = jsLines a @ jsLines b"
  by (induction a) (auto split: list.splits)

lemma map_filter_append: "List.map_filter f (xs @ ys) = List.map_filter f xs @ List.map_filter f ys"
  by (induction xs) (auto split: option.splits)

lemma lines_context:
  assumes pre: "pre = [] \<or> lineTerminator (last pre)"
    and post: "post = [] \<or> lineTerminator (hd post)"
    and l: "\<forall>c\<in>set l. \<not> lineTerminator c"
    and f: "f [] = None"
  shows "List.map_filter f (jsLines (pre @ l @ post)) =
           List.map_filter f (jsLines pre) @ List.map_filter f [l] @ List.map_filter f (jsLines post)"
proof -
  have tail: "List.map_filter f (jsLines (l @ post)) = List.map_filter f [l] @ List.map_filter f (jsLines post)"
  proof (cases post)
    case Nil
    then show ?thesis using l f by (simp add: jsLines_noLT split: option.splits)
  next
    case (Cons t post')
    with post have "lineTerminator t" by simp
    then show ?thesis
      using l f Cons jsLines_append_LT[of t l post'] jsLines_append_LT[of t "[]" post']
      by (simp add: jsLines_noLT map_filter_append split: option.splits)
  qed
  show ?thesis
  proof (cases "pre = []")
    case True
    then show ?thesis using tail f by simp
  next
    case False
    then obtain pre' t where p: "pre = pre' @ [t]" by (metis rev_exhaust)
    with pre have t: "lineTerminator t" by simp
    have "jsLines (pre @ l @ post) = jsLines pre' @ jsLines (l @ post)"
      using jsLines_append_LT[OF t, of pre' "l @ post"] p by simp
    moreover have "jsLines pre = jsLines pre' @ [[]]"
      using jsLines_append_LT[OF t, of pre' "[]"] p by simp
    ultimately show ?thesis
      using tail f by (simp add: map_filter_append split: option.splits)
  qed
qed

lemma parseEntries_context:
  assumes "pre = [] \<or> lineTerminator (last pre)"
    and "post = [] \<or> lineTerminator (hd post)"
    and "\<forall>c\<in>set l. \<not> lineTerminator c"
  shows "parseEntries (pre @ l @ post) =
           Inr (map (\<lambda>(k, v). entryOf k v)
                  (List.map_filter entryLine (jsLines pre) @ List.map_filter entryLine [l] @
                   List.map_filter entryLine (jsLines post)))"
  using lines_context[OF assms, of entryLine]
  by (simp add: parseEntries_lines entryLine_def)

subsection \<open>A source with one header\<close>


lemma lineOf_append_LT:
  "\<forall>c\<in>set n. \<not> lineTerminator c \<Longrightarrow> lineTerminator t \<Longrightarrow>
     lineOf (n @ t # s) = n \<and> afterLine (n @ t # s) = t # s"
  by (induction n) auto

lemma regionOf_nohash: "HASH \<notin> set b \<Longrightarrow> regionOf b = b \<and> afterRegion b = []"
  by (induction b) auto

lemma matchAll_single_group:
  assumes n: "\<forall>c\<in>set n. \<not> lineTerminator c" and b: "HASH \<notin> set body"
  shows "matchAll groupRe (HASH # n @ LF # DASH # body) = [[1 \<mapsto> n, 2 \<mapsto> body]]"
proof -
  let ?s = "HASH # n @ LF # DASH # body"
  let ?x = "\<lparr>prev = None, rest = ?s, caps = \<lambda>_. None\<rparr>"
  let ?e = "\<lparr>prev = prevAfter (Some DASH) body, rest = [], caps = [1 \<mapsto> n, 2 \<mapsto> body]\<rparr>"
  have gh: "groupHead ?s = Some (n, body)"
    using lineOf_append_LT[OF n, of LF "DASH # body"] by (simp add: groupHead_def)
  have ex: "exec groupRe ?x = Some (?x, ?e)"
    by (subst exec_lit) (simp add: groupRe_at gh regionOf_nohash[OF b] bolp_def del: One_nat_def)
  have "exec groupRe ?e = None"
    by (subst exec_lit) (simp add: groupRe_at groupHead_def)
  then have "matchAllFrom groupRe ?e = []" by (rule matchAllFrom_None)
  then have "matchAllFrom groupRe ?x = [?e]"
    by (subst matchAllFrom.simps) (simp add: ex)
  then show ?thesis by (simp add: matchAll_def)
qed

lemma formatTable_single_group:
  assumes "\<forall>c\<in>set n. \<not> lineTerminator c" and "HASH \<notin> set body"
  shows "formatTable g (HASH # n @ LF # DASH # body) =
     Inr \<lparr>thumbnails = map (thumbOf g) (List.map_filter thumbLine (jsLines (HASH # n @ LF # DASH # body))),
          groups = [groupOf n body]\<rparr>"
  by (simp add: formatTable_def thumbnails_lines matchAll_single_group[OF assms] mkGroup_caps
        del: One_nat_def)

subsection \<open>Lines that are no entries\<close>

lemma entryLine_not_dash: "\<not> startsWith DASH l \<Longrightarrow> entryLine l = None"
  by (auto simp: entryLine_def startsWith_def split: list.splits)

lemma entryLine_no_colon:
  assumes "\<forall>i<Suc (length w). \<not> unescapedAt COLON (DASH # w) i"
  shows "entryLine (DASH # w) = None"
proof -
  from assms have "\<forall>i<length w. \<not> unescapedAt COLON (DASH # w) (Suc i)" by auto
  then show ?thesis by (simp add: entryLine_def splitUnescaped_None_iff)
qed

lemma entryLine_first_colon:
  assumes "\<forall>i<Suc (length k). \<not> unescapedAt COLON (DASH # k @ COLON # v) i"
    and "unescapedAt COLON (DASH # k @ COLON # v) (Suc (length k))"
  shows "entryLine (DASH # k @ COLON # v) = Some (k, v)"
proof -
  from assms(1) have "\<forall>i<length k. \<not> unescapedAt COLON (DASH # k @ COLON # v) (Suc i)" by auto
  from splitUnescaped_first[OF this assms(2)] show ?thesis by (simp add: entryLine_def)
qed

lemma parseEntries_drop_line:
  assumes "pre = [] \<or> lineTerminator (last pre)"
    and "post = [] \<or> lineTerminator (hd post)"
    and "\<forall>c\<in>set l. \<not> lineTerminator c"
    and "entryLine l = None"
  shows "parseEntries (pre @ l @ post) = parseEntries (pre @ post)"
  using parseEntries_context[OF assms(1,2,3)] parseEntries_context[OF assms(1,2), of "[]"] assms(4)
  by (simp add: entryLine_def)

subsection \<open>A group in its context\<close>

lemma exec_caps:
  "exec r \<lparr>prev = p, rest = s, caps = c\<rparr> =
     map_option (\<lambda>(x, e). (x\<lparr>caps := c\<rparr>, e)) (exec r \<lparr>prev = p, rest = s, caps = c'\<rparr>)"
proof (induction s arbitrary: p)
  case Nil
  show ?case
    by (subst exec_lit, subst (2) exec_lit) (simp split: option.splits)
next
  case (Cons a s)
  show ?case
    by (subst exec_lit, subst (2) exec_lit) (simp add: Cons split: option.splits)
qed

lemma matchAllFrom_caps:
  "matchAllFrom r \<lparr>prev = p, rest = s, caps = c\<rparr> = matchAllFrom r \<lparr>prev = p, rest = s, caps = c'\<rparr>"
  by (subst matchAllFrom.simps, subst (2) matchAllFrom.simps, subst exec_caps[of r p s c c'])
     (auto split: option.splits)

lemma length_afterRegion_le: "length (afterRegion s) \<le> length s"
  by (induction s) auto

lemma groupMatches_unfold:
  "groupMatches p s =
     (case (if bolp p then groupHead s else None) of
        Some (n, s2) \<Rightarrow>
          [1 \<mapsto> n, 2 \<mapsto> regionOf s2] #
            groupMatches (prevAfter (Some DASH) (regionOf s2)) (afterRegion s2)
      | None \<Rightarrow> (case s of [] \<Rightarrow> [] | a # s' \<Rightarrow> groupMatches (Some a) s'))"
proof (cases "if bolp p then groupHead s else None")
  case None
  then have rm: "rmatch groupRe \<lparr>prev = p, rest = s, caps = \<lambda>_. None\<rparr> Some = None"
    by (simp add: groupRe_at split: if_splits)
  show ?thesis
  proof (cases s)
    case Nil
    have "exec groupRe \<lparr>prev = p, rest = s, caps = \<lambda>_. None\<rparr> = None"
      by (subst exec_lit) (simp add: rm, simp add: Nil)
    then show ?thesis
      using None Nil by (simp add: groupMatches_def matchAllFrom_None)
  next
    case (Cons a s')
    have "exec groupRe \<lparr>prev = p, rest = s, caps = \<lambda>_. None\<rparr> =
          exec groupRe \<lparr>prev = Some a, rest = s', caps = \<lambda>_. None\<rparr>"
      by (subst exec_lit) (simp add: rm, simp add: Cons)
    from matchAllFrom_cong[OF this] show ?thesis
      using None Cons by (simp add: groupMatches_def)
  qed
next
  case (Some ns)
  obtain n s2 where ns: "ns = (n, s2)" by (cases ns)
  from Some ns have b: "bolp p" and gh: "groupHead s = Some (n, s2)"
    by (auto split: if_splits)
  let ?x = "\<lparr>prev = p, rest = s, caps = \<lambda>_. None\<rparr>"
  let ?e = "\<lparr>prev = prevAfter (Some DASH) (regionOf s2), rest = afterRegion s2,
             caps = [1 \<mapsto> n, 2 \<mapsto> regionOf s2]\<rparr>"
  have ex: "exec groupRe ?x = Some (?x, ?e)"
    by (subst exec_lit) (simp add: groupRe_at b gh del: One_nat_def)
  have "s = HASH # n @ LF # DASH # s2"
    using groupHead_Some[OF gh] by simp
  then have lt: "length (afterRegion s2) < length s"
    using length_afterRegion_le[of s2] by simp
  have "matchAllFrom groupRe ?x = ?e # matchAllFrom groupRe ?e"
    by (subst matchAllFrom.simps) (simp add: ex lt del: One_nat_def)
  then show ?thesis
    using Some ns matchAllFrom_caps[of groupRe "prevAfter (Some DASH) (regionOf s2)" "afterRegion s2"
        "[1 \<mapsto> n, 2 \<mapsto> regionOf s2]" "\<lambda>_. None"]
    by (simp add: groupMatches_def del: One_nat_def)
qed

lemma matchAll_groupRe: "matchAll groupRe s = groupMatches None s"
  by (simp add: matchAll_def groupMatches_def)

lemma prevAfter_append: "prevAfter p (a @ b) = prevAfter (prevAfter p a) b"
  by (induction a arbitrary: p) auto

lemma regionOf_append_hash: "regionOf (r @ HASH # s) = regionOf r"
  by (induction r) auto

lemma afterRegion_append_hash: "afterRegion (r @ HASH # s) = afterRegion r @ HASH # s"
  by (induction r) auto

lemma lineOf_append_hasLT:
  "\<exists>c\<in>set t. lineTerminator c \<Longrightarrow> lineOf (t @ s) = lineOf t \<and> afterLine (t @ s) = afterLine t @ s"
  by (induction t) auto

lemma groupHead_before_hash:
  assumes "t \<noteq> []" and "lineTerminator (last t)"
  shows "groupHead (t @ HASH # s) =
           map_option (\<lambda>(n, r). (n, butlast r @ HASH # s)) (groupHead (t @ [HASH]))"
proof (cases t)
  case Nil
  with assms show ?thesis by simp
next
  case (Cons a t')
  show ?thesis
  proof (cases "a = HASH")
    case False
    then show ?thesis using Cons by (simp add: groupHead_def)
  next
    case True
    with assms Cons have t': "t' \<noteq> []" "lineTerminator (last t')"
      by (auto split: if_splits)
    then have "\<exists>c\<in>set t'. lineTerminator c"
      using last_in_set by blast
    note la = lineOf_append_hasLT[OF this]
    have gh: "groupHead (HASH # t' @ x) =
        (case afterLine t' @ x of
           [] \<Rightarrow> None
         | [t] \<Rightarrow> None
         | t # d # s2 \<Rightarrow> if t = LF \<and> d = DASH then Some (lineOf t', s2) else None)" for x
      by (simp add: groupHead_def la split: list.splits)
    show ?thesis
    proof (cases "afterLine t'")
      case Nil
      then show ?thesis unfolding Cons True append_Cons gh by (simp split: list.splits)
    next
      case c1: (Cons u us)
      show ?thesis
      proof (cases us)
        case Nil
        then show ?thesis unfolding Cons True append_Cons gh c1 by simp
      next
        case c2: (Cons d ds)
        show ?thesis unfolding Cons True append_Cons gh c1 c2 by (simp add: butlast_append)
      qed
    qed
  qed
qed

lemma groupMatches_Nil [simp]: "groupMatches p [] = []"
  by (subst groupMatches_unfold) (simp add: groupHead_def)

lemma groupMatches_hash [simp]: "groupMatches p [HASH] = []"
  by (subst groupMatches_unfold) (simp add: groupHead_def)

lemma afterRegion_suffix_last:
  "afterRegion r \<noteq> [] \<Longrightarrow> last (afterRegion r) = last r"
  by (induction r) (auto split: if_splits)

lemma groupMatches_prefix:
  assumes "front = [] \<or> lineTerminator (last front)"
  shows "groupMatches p (front @ HASH # s) =
           groupMatches p (front @ [HASH]) @ groupMatches (prevAfter p front) (HASH # s)"
  using assms
proof (induction front arbitrary: p rule: length_induct)
  case (1 front)
  show ?case
  proof (cases front)
    case Nil
    then show ?thesis by simp
  next
    case (Cons a t')
    with 1(2) have ne: "front \<noteq> []" and lt: "lineTerminator (last front)" by auto
    note gh = groupHead_before_hash[OF ne lt]
    have t'inv: "t' = [] \<or> lineTerminator (last t')"
      using lt Cons by (auto split: if_splits)
    show ?thesis
    proof (cases "if bolp p then groupHead (front @ [HASH]) else None")
      case None
      then have n2: "(if bolp p then groupHead (front @ HASH # s) else None) = None"
        by (simp add: gh[of s] split: if_splits)
      have "groupMatches p (front @ HASH # s) = groupMatches (Some a) (t' @ HASH # s)"
        by (subst groupMatches_unfold) (simp add: n2, simp add: Cons)
      moreover have "groupMatches p (front @ [HASH]) = groupMatches (Some a) (t' @ [HASH])"
        by (subst groupMatches_unfold) (simp add: None, simp add: Cons)
      moreover have "groupMatches (Some a) (t' @ HASH # s) =
          groupMatches (Some a) (t' @ [HASH]) @ groupMatches (prevAfter (Some a) t') (HASH # s)"
      proof (cases "t' = []")
        case True
        then show ?thesis by simp
      next
        case False
        with t'inv have "lineTerminator (last t')" by simp
        moreover have "length t' < length front" using Cons by simp
        ultimately show ?thesis using 1(1) by blast
      qed
      ultimately show ?thesis using Cons by simp
    next
      case (Some nr)
      from Some have b: "bolp p" and g: "groupHead (front @ [HASH]) = Some nr"
        by (auto split: if_splits)
      obtain n r0 where nr0: "nr = (n, r0)" by (cases nr)
      from groupHead_Some[OF g[unfolded nr0]] have eq: "front @ [HASH] = HASH # n @ LF # DASH # r0"
        by simp
      have "r0 \<noteq> []"
      proof
        assume "r0 = []"
        with eq have "last (front @ [HASH]) = DASH" by simp
        then show False by simp
      qed
      then obtain r x where r: "r0 = r @ [x]" by (metis rev_exhaust)
      with eq have eq': "front @ [HASH] = (HASH # n @ LF # DASH # r) @ [x]" by simp
      then have front: "front = HASH # n @ LF # DASH # r" and "x = HASH"
        by (simp_all only: append1_eq_conv)
      with r have r0: "r0 = r @ [HASH]" by simp
      have g1: "groupHead (front @ [HASH]) = Some (n, r @ [HASH])"
        using g nr0 r0 by simp
      have g2: "groupHead (front @ HASH # s) = Some (n, r @ HASH # s)"
        by (simp add: gh[of s] g1)
      have len: "length (afterRegion r) < length front"
        using front length_afterRegion_le[of r] by simp
      have rinv: "afterRegion r = [] \<or> lineTerminator (last (afterRegion r))"
      proof (cases "afterRegion r = []")
        case True
        then show ?thesis by simp
      next
        case False
        then have "r \<noteq> []" by auto
        with lt front have "lineTerminator (last r)" by simp
        with afterRegion_suffix_last[OF False] show ?thesis by simp
      qed
      let ?q = "prevAfter (Some DASH) (regionOf r)"
      have ih: "groupMatches ?q (afterRegion r @ HASH # s) =
          groupMatches ?q (afterRegion r @ [HASH]) @ groupMatches (prevAfter ?q (afterRegion r)) (HASH # s)"
      proof (cases "afterRegion r = []")
        case True
        then show ?thesis by simp
      next
        case False
        with rinv have "lineTerminator (last (afterRegion r))" by simp
        with len show ?thesis using 1(1) by blast
      qed
      have pa: "prevAfter ?q (afterRegion r) = prevAfter p front"
        using prevAfter_append[of "Some DASH" "regionOf r" "afterRegion r"]
        by (simp add: regionOf_afterRegion front prevAfter_append)
      have "groupMatches p (front @ HASH # s) =
          [1 \<mapsto> n, 2 \<mapsto> regionOf r] # groupMatches ?q (afterRegion r @ HASH # s)"
        by (subst groupMatches_unfold)
           (simp add: b g2 regionOf_append_hash afterRegion_append_hash del: One_nat_def)
      moreover have "groupMatches p (front @ [HASH]) =
          [1 \<mapsto> n, 2 \<mapsto> regionOf r] # groupMatches ?q (afterRegion r @ [HASH])"
        by (subst groupMatches_unfold)
           (simp add: b g1 regionOf_append_hash afterRegion_append_hash del: One_nat_def)
      ultimately show ?thesis
        using ih pa by simp
    qed
  qed
qed

lemma mapE_append:
  "mapE f (xs @ ys) =
     (case mapE f xs of
        Inl e \<Rightarrow> Inl e
      | Inr a \<Rightarrow> (case mapE f ys of Inl e \<Rightarrow> Inl e | Inr b \<Rightarrow> Inr (a @ b)))"
  by (induction xs) (auto split: sum.splits)

lemma groupMatches_total: "\<exists>gs. mapE mkGroup (groupMatches p s) = Inr gs"
proof (rule mapE_total)
  fix c assume "c \<in> set (groupMatches p s)"
  then obtain y where "y \<in> set (matchAllFrom groupRe \<lparr>prev = p, rest = s, caps = \<lambda>_. None\<rparr>)"
    "c = caps y" by (auto simp: groupMatches_def)
  with group_match_elem[OF this(1)] show "\<exists>g. mkGroup c = Inr g" by auto
qed

lemma regionOf_body_tail:
  assumes "HASH \<notin> set body" and "tail = [] \<or> hd tail = HASH"
  shows "regionOf (body @ tail) = body \<and> afterRegion (body @ tail) = tail"
proof (cases tail)
  case Nil
  with assms(1) show ?thesis by (simp add: regionOf_nohash)
next
  case (Cons a t)
  with assms(2) have "a = HASH" by simp
  with Cons assms(1) show ?thesis
    by (simp add: regionOf_append_hash afterRegion_append_hash regionOf_nohash)
qed

lemma matchAll_group_in_context:
  assumes front: "front = [] \<or> lineTerminator (last front)"
    and n: "\<forall>c\<in>set n. \<not> lineTerminator c"
    and body: "HASH \<notin> set body"
    and tail: "tail = [] \<or> hd tail = HASH"
  shows "matchAll groupRe (front @ HASH # n @ LF # DASH # body @ tail) =
           groupMatches None (front @ [HASH]) @
           [1 \<mapsto> n, 2 \<mapsto> body] # groupMatches (prevAfter (Some DASH) body) tail"
proof -
  have b: "bolp (prevAfter None front)"
    using front by (auto simp: prevAfter_def bolp_def)
  have gh: "groupHead (HASH # n @ LF # DASH # body @ tail) = Some (n, body @ tail)"
    using lineOf_append_LT[OF n, of LF "DASH # body @ tail"] by (simp add: groupHead_def)
  have "groupMatches (prevAfter None front) (HASH # n @ LF # DASH # body @ tail) =
          [1 \<mapsto> n, 2 \<mapsto> body] # groupMatches (prevAfter (Some DASH) body) tail"
    by (subst groupMatches_unfold)
       (simp add: b gh regionOf_body_tail[OF body tail] del: One_nat_def)
  then show ?thesis
    using groupMatches_prefix[OF front, of None "n @ LF # DASH # body @ tail"]
    by (simp add: matchAll_groupRe)
qed

lemma formatTable_group_in_context:
  assumes "front = [] \<or> lineTerminator (last front)"
    and "\<forall>c\<in>set n. \<not> lineTerminator c"
    and "HASH \<notin> set body"
    and "tail = [] \<or> hd tail = HASH"
  shows "\<exists>ts gs1 gs2.
           mapE mkGroup (groupMatches None (front @ [HASH])) = Inr gs1 \<and>
           mapE mkGroup (groupMatches (prevAfter (Some DASH) body) tail) = Inr gs2 \<and>
           formatTable g (front @ HASH # n @ LF # DASH # body @ tail) =
             Inr \<lparr>thumbnails = ts, groups = gs1 @ groupOf n body # gs2\<rparr>"
proof -
  obtain gs1 where 1: "mapE mkGroup (groupMatches None (front @ [HASH])) = Inr gs1"
    using groupMatches_total by blast
  obtain gs2 where 2: "mapE mkGroup (groupMatches (prevAfter (Some DASH) body) tail) = Inr gs2"
    using groupMatches_total by blast
  show ?thesis
    using 1 2
    by (simp add: formatTable_def thumbnails_lines matchAll_group_in_context[OF assms]
          mapE_append mkGroup_caps del: One_nat_def)
qed


subsection \<open>The entry code on the lines of a region\<close>

lemma parseEntries_entry_line:
  assumes "pre = [] \<or> lineTerminator (last pre)"
    and "post = [] \<or> lineTerminator (hd post)"
    and "\<forall>c\<in>set (k @ v). \<not> lineTerminator c"
    and "\<forall>i<Suc (length k). \<not> unescapedAt COLON (DASH # k @ COLON # v) i"
    and "unescapedAt COLON (DASH # k @ COLON # v) (Suc (length k))"
  shows "\<exists>es1 es2 e.
           parseEntries pre = Inr es1 \<and> parseEntries post = Inr es2 \<and>
           mkEntry [1 \<mapsto> k, 2 \<mapsto> v] = Inr e \<and>
           parseEntries (pre @ (DASH # k @ COLON # v) @ post) = Inr (es1 @ e # es2)"
proof -
  have l: "\<forall>c\<in>set (DASH # k @ COLON # v). \<not> lineTerminator c"
    using assms(3) by auto
  show ?thesis
    using parseEntries_context[OF assms(1,2) l] entryLine_first_colon[OF assms(4,5)]
    by (simp add: parseEntries_lines mkEntry_caps del: One_nat_def)
qed

lemma parseEntries_colonless_line:
  assumes "pre = [] \<or> lineTerminator (last pre)"
    and "post = [] \<or> lineTerminator (hd post)"
    and "\<forall>c\<in>set w. \<not> lineTerminator c"
    and "\<forall>i<Suc (length w). \<not> unescapedAt COLON (DASH # w) i"
  shows "parseEntries (DASH # w) = Inr [] \<and>
         (\<exists>es. parseEntries (pre @ (DASH # w) @ post) = Inr es \<and> parseEntries (pre @ post) = Inr es)"
proof -
  have l: "\<forall>c\<in>set (DASH # w). \<not> lineTerminator c"
    using assms(3) by auto
  have n: "entryLine (DASH # w) = None"
    by (rule entryLine_no_colon[OF assms(4)])
  have "parseEntries (DASH # w) = Inr []"
    using parseEntries_context[of "[]" "[]" "DASH # w"] l n
    by (simp add: entryLine_def)
  moreover have "parseEntries (pre @ (DASH # w) @ post) = parseEntries (pre @ post)"
    by (rule parseEntries_drop_line[OF assms(1,2) l n])
  ultimately show ?thesis
    by (simp add: parseEntries_lines)
qed

lemma entry_value_variants:
  assumes "formatTable g source = Inr d" and "grp \<in> set (groups d)" and "e \<in> set (entries grp)"
  shows "case entry_value e of Single s \<Rightarrow> True | Many vs \<Rightarrow> 2 \<le> length vs"
proof -
  from formatTable_group_elem[OF assms(1,2)] obtain n s2 where
    "grp = groupOf n (regionOf s2)" by blast
  with assms(3) obtain k v where e: "e = entryOf k v"
    by (auto simp: groupOf_def)
  let ?segs = "map (replaceFirst [BSL, SEMI] [SEMI]) (splitOnUnescaped SEMI None v)"
  have ne: "1 \<le> length ?segs"
    using splitOnUnescaped_nonempty[of SEMI None v]
    by (cases "splitOnUnescaped SEMI None v") simp_all
  have val: "entry_value e = (if length ?segs = 1 then Single (?segs ! 0) else Many ?segs)"
    by (simp add: e entryOf_def Let_def)
  show ?thesis
    using ne unfolding val by (auto simp del: One_nat_def)
qed

section \<open>The claims\<close>

text \<open>Concrete sources are evaluated on the matcher itself, with these equations.\<close>

lemmas formatTable_eval =
  formatTable_def matchAll_def matchAllFrom.simps exec.simps rmatch.simps thumbnailRe_def
  groupRe_def entryRe_def valueSepRe_def js_def step_def atLineStart_def atLineEnd_def
  lineTerminator_def clearCaps_def consumed_def mkThumbnail_def mkGroup_def parseEntries_def
  mkEntry_def jsSplit_def splitLoop.simps

subsection \<open>C1: a header with no entry lines\<close>

text \<open>
  C1, as stated, fails: the source \<^verbatim>\<open>#EmptySection\<close> has a header line and no entry
  line, and the parse holds no group at all.  The group expression asks for a newline and
  a \<^verbatim>\<open>-\<close> right after the header text.
\<close>

theorem C1_empty_section_counterexample:
  "formatTable id (js ''#EmptySection'') = Inr \<lparr>thumbnails = [], groups = []\<rparr>"
  by (simp add: formatTable_eval)

text \<open>
  C1, amended: a header line produces a group only if it is directly followed by a
  newline and \<^verbatim>\<open>-\<close>.  For every resolver and source, each group of the result has its
  name, in the source, between a \<^verbatim>\<open>#\<close> and a newline followed by \<^verbatim>\<open>-\<close>.  And
  take, anywhere in a source, a header line \<^verbatim>\<open>#n\<close> (at the start of a line) that is
  directly followed by a line holding a lone \<^verbatim>\<open>-\<close>, with no line starting with
  \<^verbatim>\<open>-\<close> in the rest \<open>body\<close> of its region (the text up to the next \<^verbatim>\<open>#\<close> or
  the end of the input): the parse holds the group \<open>n\<close>, and its entries sequence is
  empty.
\<close>

theorem C1_group_needs_dash_line:
  "(formatTable g source = Inr d \<and> grp \<in> set (groups d) \<longrightarrow>
      (\<exists>u v. source = u @ HASH # name grp @ LF # DASH # v)) \<and>
   ((front = [] \<or> lineTerminator (last front)) \<and> (\<forall>c\<in>set n. \<not> lineTerminator c) \<and>
    HASH \<notin> set body \<and> (body = [] \<or> lineTerminator (hd body)) \<and>
    (\<forall>l\<in>set (jsLines body). \<not> startsWith DASH l) \<and> (tail = [] \<or> hd tail = HASH) \<longrightarrow>
      (\<exists>ts gs1 gs2.
         formatTable g (front @ HASH # n @ LF # DASH # body @ tail) =
           Inr \<lparr>thumbnails = ts, groups = gs1 @ \<lparr>name = n, entries = []\<rparr> # gs2\<rparr>))"
proof (intro conjI impI)
  assume "formatTable g source = Inr d \<and> grp \<in> set (groups d)"
  then obtain u n' s2
    where "source = u @ HASH # n' @ LF # DASH # s2" "grp = groupOf n' (regionOf s2)"
    using formatTable_group_elem[of g source d grp] by blast
  then have "source = u @ HASH # name grp @ LF # DASH # s2"
    by (simp add: groupOf_def)
  then show "\<exists>u v. source = u @ HASH # name grp @ LF # DASH # v"
    by blast
next
  assume a: "(front = [] \<or> lineTerminator (last front)) \<and> (\<forall>c\<in>set n. \<not> lineTerminator c) \<and>
    HASH \<notin> set body \<and> (body = [] \<or> lineTerminator (hd body)) \<and>
    (\<forall>l\<in>set (jsLines body). \<not> startsWith DASH l) \<and> (tail = [] \<or> hd tail = HASH)"
  then have "\<forall>l\<in>set (jsLines body). entryLine l = None"
    by (simp add: entryLine_not_dash)
  then have "List.map_filter entryLine (jsLines body) = []"
    by (simp add: List.map_filter_def filter_empty_conv)
  then have grp: "groupOf n body = \<lparr>name = n, entries = []\<rparr>"
    by (simp add: groupOf_def)
  from a have f: "front = [] \<or> lineTerminator (last front)" and n: "\<forall>c\<in>set n. \<not> lineTerminator c"
    and b: "HASH \<notin> set body" and t: "tail = [] \<or> hd tail = HASH" by blast+
  from formatTable_group_in_context[OF f n b t, of g] grp
  show "\<exists>ts gs1 gs2.
         formatTable g (front @ HASH # n @ LF # DASH # body @ tail) =
           Inr \<lparr>thumbnails = ts, groups = gs1 @ \<lparr>name = n, entries = []\<rparr> # gs2\<rparr>"
    by auto
qed

text \<open>
  The source \<^verbatim>\<open>#A\<close>, \<^verbatim>\<open>-\<close>, \<^verbatim>\<open>-a:b\<close>, \<^verbatim>\<open>#Empty\<close>, \<^verbatim>\<open>#E\<close>,
  \<^verbatim>\<open>-\<close>, \<^verbatim>\<open>#B\<close>, \<^verbatim>\<open>-\<close>, \<^verbatim>\<open>-c:d\<close>: the header \<^verbatim>\<open>#Empty\<close> is not
  followed by a \<^verbatim>\<open>-\<close> line and produces no group; the header \<^verbatim>\<open>#E\<close>, between
  two groups with entries, is followed by a lone \<^verbatim>\<open>-\<close> and produces a group with
  no entries.
\<close>

theorem C1_group_needs_dash_line_witness:
  "formatTable id (js ''#A'' @ [LF] @ js ''-'' @ [LF] @ js ''-a:b'' @ [LF] @ js ''#Empty'' @ [LF] @
                   js ''#E'' @ [LF] @ js ''-'' @ [LF] @ js ''#B'' @ [LF] @ js ''-'' @ [LF] @ js ''-c:d'') =
     Inr \<lparr>thumbnails = [],
          groups = [\<lparr>name = js ''A'', entries = [\<lparr>key = js ''a'', entry_value = Single (js ''b'')\<rparr>]\<rparr>,
                    \<lparr>name = js ''E'', entries = []\<rparr>,
                    \<lparr>name = js ''B'', entries = [\<lparr>key = js ''c'', entry_value = Single (js ''d'')\<rparr>]\<rparr>]\<rparr> \<and>
   (\<exists>u v. js ''#A'' @ [LF] @ js ''-'' @ [LF] @ js ''-a:b'' @ [LF] @ js ''#Empty'' @ [LF] @
            js ''#E'' @ [LF] @ js ''-'' @ [LF] @ js ''#B'' @ [LF] @ js ''-'' @ [LF] @ js ''-c:d'' =
            u @ HASH # js ''E'' @ LF # DASH # v) \<and>
   (\<exists>ts gs1 gs2.
      formatTable id ((js ''#A'' @ [LF] @ js ''-'' @ [LF] @ js ''-a:b'' @ [LF] @ js ''#Empty'' @ [LF]) @
                      HASH # js ''E'' @ LF # DASH # [LF] @ (js ''#B'' @ [LF] @ js ''-'' @ [LF] @ js ''-c:d'')) =
        Inr \<lparr>thumbnails = ts, groups = gs1 @ \<lparr>name = js ''E'', entries = []\<rparr> # gs2\<rparr>)"
proof -
  let ?s = "js ''#A'' @ [LF] @ js ''-'' @ [LF] @ js ''-a:b'' @ [LF] @ js ''#Empty'' @ [LF] @
            js ''#E'' @ [LF] @ js ''-'' @ [LF] @ js ''#B'' @ [LF] @ js ''-'' @ [LF] @ js ''-c:d''"
  let ?front = "js ''#A'' @ [LF] @ js ''-'' @ [LF] @ js ''-a:b'' @ [LF] @ js ''#Empty'' @ [LF]"
  let ?tail = "js ''#B'' @ [LF] @ js ''-'' @ [LF] @ js ''-c:d''"
  let ?grp = "\<lparr>name = js ''E'', entries = []\<rparr>"
  let ?d = "\<lparr>thumbnails = [],
          groups = [\<lparr>name = js ''A'', entries = [\<lparr>key = js ''a'', entry_value = Single (js ''b'')\<rparr>]\<rparr>,
                    ?grp,
                    \<lparr>name = js ''B'', entries = [\<lparr>key = js ''c'', entry_value = Single (js ''d'')\<rparr>]\<rparr>]\<rparr>"
  have e: "formatTable id ?s = Inr ?d"
    by (simp add: formatTable_eval)
  have m: "?grp \<in> set (groups ?d)" by simp
  have h: "(?front = [] \<or> lineTerminator (last ?front)) \<and> (\<forall>c\<in>set (js ''E''). \<not> lineTerminator c) \<and>
    HASH \<notin> set [LF] \<and> ([LF] = [] \<or> lineTerminator (hd [LF])) \<and>
    (\<forall>l\<in>set (jsLines [LF]). \<not> startsWith DASH l) \<and> (?tail = [] \<or> hd ?tail = HASH)"
    by (simp add: js_def lineTerminator_def startsWith_def)
  from C1_group_needs_dash_line[of id ?s ?d ?grp ?front "js ''E''" "[LF]" ?tail] e m h
  show ?thesis by simp
qed

subsection \<open>C2: an escaped separator in a thumbnail line\<close>

text \<open>
  C2: on the thumbnail line \<^verbatim>\<open>!a\|b|desc\<close> the first unescaped \<^verbatim>\<open>|\<close> is the
  separator, and the description is \<^verbatim>\<open>desc\<close>, but the text handed to the resolver
  (here the resolver that echoes its input) is \<^verbatim>\<open>a\|b\<close>: the backslash stays.
\<close>

theorem C2_thumbnail_keeps_backslash:
  "formatTable id (js ''!a'' @ [BSL] @ js ''|b|desc'') =
     Inr \<lparr>thumbnails = [\<lparr>url = js ''a'' @ [BSL] @ js ''|b'', description = Some (js ''desc'')\<rparr>],
          groups = []\<rparr>"
  by (simp add: formatTable_eval)

subsection \<open>C3: lines of a region that do not start with \<^verbatim>\<open>-\<close>\<close>




subsection \<open>C4: where a region ends\<close>

text \<open>
  C4: on the four lines \<^verbatim>\<open>#G\<close>, \<^verbatim>\<open>-a:b\<close>, \<^verbatim>\<open>-c:x#y\<close>, \<^verbatim>\<open>-d:e\<close> the
  region the code captures is \<^verbatim>\<open>a:b\<close>, newline, \<^verbatim>\<open>-c:x\<close>: it starts after the
  first \<^verbatim>\<open>-\<close> and stops at the \<^verbatim>\<open>#\<close> in the middle of the third line.  The only
  entry is \<^verbatim>\<open>c\<close> with value \<^verbatim>\<open>x\<close>.
\<close>

theorem C4_region_stops_at_any_hash:
  "formatTable id (js ''#G'' @ [LF] @ js ''-a:b'' @ [LF] @ js ''-c:x#y'' @ [LF] @ js ''-d:e'') =
     Inr \<lparr>thumbnails = [],
          groups = [\<lparr>name = js ''G'',
                     entries = [\<lparr>key = js ''c'', entry_value = Single (js ''x'')\<rparr>]\<rparr>]\<rparr>"
  by (simp add: formatTable_eval)

subsection \<open>C5: decoding the escapes\<close>

text \<open>
  C5: only the first escaped delimiter of a key or of a value segment loses its backslash.
  Source: \<^verbatim>\<open>#G\<close>, \<^verbatim>\<open>-\<close>, \<^verbatim>\<open>-a\:b\::p\;q\;r\<close> on three lines; the key is
  \<^verbatim>\<open>a:b\:\<close> and the value is \<^verbatim>\<open>p;q\;r\<close>.
\<close>

theorem C5_only_first_escape_decoded:
  "formatTable id (js ''#G'' @ [LF] @ js ''-'' @ [LF] @
                   js ''-a'' @ [BSL] @ js '':b'' @ [BSL] @ js ''::p'' @ [BSL] @ js '';q'' @ [BSL] @ js '';r'') =
     Inr \<lparr>thumbnails = [],
          groups = [\<lparr>name = js ''G'',
                     entries = [\<lparr>key = js ''a:b'' @ [BSL] @ js '':'',
                                 entry_value = Single (js ''p;q'' @ [BSL] @ js '';r'')\<rparr>]\<rparr>]\<rparr>"
  by (simp add: formatTable_eval)

subsection \<open>C6: key and value are cut at the first unescaped colon\<close>

text \<open>
  C6: the entry line \<^verbatim>\<open>-Time\::Noon\<close>, directly under the header \<^verbatim>\<open>#G\<close>,
  produces no entry.  The group expression matches the \<^verbatim>\<open>-\<close> of the first line after
  the header outside its second capture: the region handed to the entry expression starts
  with \<^verbatim>\<open>Time\::Noon\<close>, and the entry expression asks for a \<^verbatim>\<open>-\<close> at the start
  of a line.  The same line behind a lone \<^verbatim>\<open>-\<close> line is cut at its first unescaped
  colon: key \<^verbatim>\<open>Time:\<close>, value \<^verbatim>\<open>Noon\<close>.  (What the entry code does with a whole
  line of a region it is given is lemma \<open>parseEntries_entry_line\<close>.)
\<close>

theorem C6_first_entry_line_lost:
  "formatTable id (js ''#G'' @ [LF] @ js ''-Time'' @ [BSL] @ js ''::Noon'') =
     Inr \<lparr>thumbnails = [], groups = [\<lparr>name = js ''G'', entries = []\<rparr>]\<rparr> \<and>
   formatTable id (js ''#G'' @ [LF] @ js ''-'' @ [LF] @ js ''-Time'' @ [BSL] @ js ''::Noon'') =
     Inr \<lparr>thumbnails = [],
          groups = [\<lparr>name = js ''G'',
                     entries = [\<lparr>key = js ''Time:'', entry_value = Single (js ''Noon'')\<rparr>]\<rparr>]\<rparr>"
  by (simp add: formatTable_eval)

subsection \<open>C7: the two variants of a value\<close>

text \<open>
  C7: a value is a single string or a sequence of at least two strings (lemma
  \<open>entry_value_variants\<close>), but its strings are not the decoded segments.  Source:
  \<^verbatim>\<open>#G\<close>, \<^verbatim>\<open>-\<close>, \<^verbatim>\<open>-k:a\;b\;c\<close>, \<^verbatim>\<open>-m:p\;q\;r;s\<close>.  The value-text
  of \<^verbatim>\<open>k\<close> has no unescaped \<^verbatim>\<open>;\<close> and is one segment; the value is the single
  string \<^verbatim>\<open>a;b\;c\<close>, which keeps the backslash of the second escaped separator.  The
  value-text of \<^verbatim>\<open>m\<close> has two segments; the value is the sequence \<^verbatim>\<open>p;q\;r\<close>,
  \<^verbatim>\<open>s\<close>.
\<close>

theorem C7_values_keep_escaped_separator:
  "formatTable id (js ''#G'' @ [LF] @ js ''-'' @ [LF] @
                   js ''-k:a'' @ [BSL] @ js '';b'' @ [BSL] @ js '';c'' @ [LF] @
                   js ''-m:p'' @ [BSL] @ js '';q'' @ [BSL] @ js '';r;s'') =
     Inr \<lparr>thumbnails = [],
          groups = [\<lparr>name = js ''G'',
                     entries = [\<lparr>key = js ''k'', entry_value = Single (js ''a;b'' @ [BSL] @ js '';c'')\<rparr>,
                                \<lparr>key = js ''m'',
                                 entry_value = Many [js ''p;q'' @ [BSL] @ js '';r'', js ''s'']\<rparr>]\<rparr>]\<rparr>"
  by (simp add: formatTable_eval)

subsection \<open>C8: the parse always returns\<close>

text \<open>
  C8: for every resolver and every source string, \<^verbatim>\<open>formatTable\<close> returns a document
  and raises no error, and the document is determined by the resolver and the source
  alone.  (The matcher and the loops of \<^verbatim>\<open>matchAll\<close> and \<^verbatim>\<open>split\<close> are total
  functions: their termination is proved where they are defined.)
\<close>

theorem C8_formatTable_total: "\<exists>!d. formatTable getImageLink source = Inr d"
  using formatTable_lines[of source getImageLink] by auto

subsection \<open>C9: a \<^verbatim>\<open>-\<close> line without an unescaped colon\<close>

text \<open>
  C9: the line \<^verbatim>\<open>-no#colon\<close> starts with \<^verbatim>\<open>-\<close> and has no colon.  In the
  source \<^verbatim>\<open>#G\<close>, \<^verbatim>\<open>-\<close>, \<^verbatim>\<open>-a:b\<close>, \<^verbatim>\<open>-no#colon\<close>, \<^verbatim>\<open>-c:d\<close> it
  produces no entry and no error, but the region of \<^verbatim>\<open>G\<close> stops at its \<^verbatim>\<open>#\<close>:
  the entry \<^verbatim>\<open>c\<close> of the line after it is lost.  With the text of the line deleted,
  the group has both entries \<^verbatim>\<open>a\<close> and \<^verbatim>\<open>c\<close>.  (Inside the region the entry
  code is given, such a line does leave the other entries alone: lemma
  \<open>parseEntries_colonless_line\<close>.)
\<close>

theorem C9_skipped_line_with_hash_cuts_group:
  "formatTable id (js ''#G'' @ [LF] @ js ''-'' @ [LF] @ js ''-a:b'' @ [LF] @ js ''-no#colon'' @ [LF] @ js ''-c:d'') =
     Inr \<lparr>thumbnails = [],
          groups = [\<lparr>name = js ''G'',
                     entries = [\<lparr>key = js ''a'', entry_value = Single (js ''b'')\<rparr>]\<rparr>]\<rparr> \<and>
   formatTable id (js ''#G'' @ [LF] @ js ''-'' @ [LF] @ js ''-a:b'' @ [LF] @ [LF] @ js ''-c:d'') =
     Inr \<lparr>thumbnails = [],
          groups = [\<lparr>name = js ''G'',
                     entries = [\<lparr>key = js ''a'', entry_value = Single (js ''b'')\<rparr>,
                                \<lparr>key = js ''c'', entry_value = Single (js ''d'')\<rparr>]\<rparr>]\<rparr>"
  by (simp add: formatTable_eval)

subsection \<open>C10: thumbnails are collected from every line\<close>



end
